theory Spec2Isabelle
  imports Main
begin

section \<open>Completions: a statement returns or throws\<close>

text \<open>
  A JavaScript statement either completes normally or throws, and in both cases the
  mutations it made stay. A completion carries the state reached; \<open>Throw\<close> carries the
  error as well.
\<close>

datatype error =
  TypeError | SendError | DuplicateSessionError | SpawnError | ENOENT | EIO

datatype 's completion = Return 's | Throw error 's

fun state_of :: "'s completion \<Rightarrow> 's" where
  "state_of (Return s) = s"
| "state_of (Throw e s) = s"

fun thrown :: "'s completion \<Rightarrow> error option" where
  "thrown (Return s) = None"
| "thrown (Throw e s) = Some e"

text \<open>Sequencing: the second statement runs only when the first did not throw.\<close>

fun and_then :: "'s completion \<Rightarrow> ('s \<Rightarrow> 's completion) \<Rightarrow> 's completion" where
  "and_then (Return s) f = f s"
| "and_then (Throw e s) f = Throw e s"

text \<open>\<^verbatim>\<open>try { body } catch (e) { handler }\<close>\<close>

fun try_catch :: "'s completion \<Rightarrow> (error \<Rightarrow> 's \<Rightarrow> 's completion) \<Rightarrow> 's completion" where
  "try_catch (Return s) h = Return s"
| "try_catch (Throw e s) h = h e s"

text \<open>A completion of a component, seen as a completion of the whole state.\<close>

fun lift :: "('a \<Rightarrow> 's) \<Rightarrow> 'a completion \<Rightarrow> 's completion" where
  "lift put (Return a) = Return (put a)"
| "lift put (Throw e a) = Throw e (put a)"

section \<open>Values read from a message\<close>

text \<open>
  \<^verbatim>\<open>JSON.parse\<close> belongs to the runtime. A payload is modelled by what the parser
  makes of it: it throws (\<open>Not_json\<close>) or returns a JSON value. Numbers are integers
  here; the handler only tests them for truthiness and passes them on.
\<close>

datatype json =
  JNull | JBool bool | JNum int | JStr string | JArr "json list" | JObj "(string \<times> json) list"

datatype payload = Not_json | Json json

datatype jsval = Undefined | Val json

text \<open>
  \<^verbatim>\<open>msg.key\<close>: reading a property of \<^verbatim>\<open>null\<close> throws a TypeError; a primitive or an
  array has none of the keys the handler reads; an object gives the value of the last
  occurrence of the key, as \<^verbatim>\<open>JSON.parse\<close> keeps it.
\<close>

fun get_prop :: "json \<Rightarrow> string \<Rightarrow> error + jsval" where
  "get_prop JNull k = Inl TypeError"
| "get_prop (JObj kvs) k = Inr (case map_of (rev kvs) k of None \<Rightarrow> Undefined | Some v \<Rightarrow> Val v)"
| "get_prop (JBool b) k = Inr Undefined"
| "get_prop (JNum n) k = Inr Undefined"
| "get_prop (JStr s) k = Inr Undefined"
| "get_prop (JArr vs) k = Inr Undefined"

text \<open>Destructuring a value already known not to be \<^verbatim>\<open>null\<close>.\<close>

definition prop_of :: "json \<Rightarrow> string \<Rightarrow> jsval" where
  "prop_of msg k = (case get_prop msg k of Inl e \<Rightarrow> Undefined | Inr v \<Rightarrow> v)"

text \<open>JavaScript truthiness, as \<^verbatim>\<open>if (cols && rows)\<close> tests it.\<close>

fun truthy :: "jsval \<Rightarrow> bool" where
  "truthy Undefined = False"
| "truthy (Val JNull) = False"
| "truthy (Val (JBool b)) = b"
| "truthy (Val (JNum n)) = (n \<noteq> 0)"
| "truthy (Val (JStr s)) = (s \<noteq> [])"
| "truthy (Val (JArr vs)) = True"
| "truthy (Val (JObj kvs)) = True"

section \<open>The session process and its ring buffer\<close>

type_synonym sid = string
type_synonym cid = nat
type_synonym lid = nat
type_synonym ref = nat

text \<open>
  The callbacks \<^verbatim>\<open>spawnSession\<close> registers with \<^verbatim>\<open>manager.onExit\<close>: the handler that
  marks the session exited and tells the viewers, and the one that unregisters the
  capture listener. Each closes over the session object (a reference).
\<close>

datatype exit_callback = ExitHandler ref | CaptureCleanup ref lid

record spawn_opts =
  opt_cwd :: string
  opt_shell :: "string option"
  opt_args :: "string list option"
  opt_resumeId :: "string option"

text \<open>
  Modelled from the spec: \<^verbatim>\<open>pty-manager.js\<close> (the classes \<^verbatim>\<open>PtyProcess\<close> and
  \<^verbatim>\<open>PtyManager\<close>) is not among the sources; only its callers and its tests are.
  A Session Process has a state (running or exited), a ring buffer with its byte size,
  its registered output listeners and exit callbacks. The input written to the
  pseudo-terminal and its dimensions are recorded as they are passed.
\<close>

record pty_process =
  alive :: bool
  buffer :: "string list"
  bufferSize :: nat
  dataListeners :: "lid list"
  exitListeners :: "exit_callback list"
  written :: "jsval list"
  dims :: "(jsval \<times> jsval) option"
  config :: spawn_opts

text \<open>Modelled from the spec: the fixed capacity of the ring buffer, 1,048,576 bytes.\<close>

definition capacity :: nat where
  "capacity = 1048576"

text \<open>
  Modelled from the spec: "while total size exceeds capacity, removes chunks from the
  front of the sequence (oldest first) until total size \<le> capacity".
\<close>

fun trim :: "string list \<Rightarrow> nat \<Rightarrow> string list \<times> nat" where
  "trim [] n = ([], n)"
| "trim (c # cs) n = (if capacity < n then trim cs (n - length c) else (c # cs, n))"

text \<open>
  Modelled from the spec: \<^verbatim>\<open>append(chunk)\<close> "adds chunk to the end of the internal
  sequence; increases total size by len(chunk)", then trims. The test calls it
  \<^verbatim>\<open>_pushToBuffer\<close> and reads \<^verbatim>\<open>bufferSize\<close>.
\<close>

definition pushToBuffer :: "string \<Rightarrow> pty_process \<Rightarrow> pty_process" where
  "pushToBuffer chunk p =
     (case trim (buffer p @ [chunk]) (bufferSize p + length chunk) of
        (b, n) \<Rightarrow> p\<lparr>buffer := b, bufferSize := n\<rparr>)"

text \<open>Modelled from the spec: a Session Process as \<^verbatim>\<open>spawn\<close> creates it, its buffer empty.\<close>

definition new_process :: "spawn_opts \<Rightarrow> bool \<Rightarrow> pty_process" where
  "new_process opts running =
     \<lparr>alive = running, buffer = [], bufferSize = 0, dataListeners = [], exitListeners = [],
      written = [], dims = None, config = opts\<rparr>"

section \<open>The process manager\<close>

text \<open>
  Modelled from the spec: the Process Manager is "a registry mapping session identifiers
  to Session Processes".
\<close>

type_synonym pty_manager = "sid \<rightharpoonup> pty_process"

text \<open>
  Modelled from the spec: \<^verbatim>\<open>spawn(id, config)\<close> "fails with DuplicateSessionError if id
  already maps to a live Session Process. Otherwise creates and stores a new Session
  Process, and calls its spawn"; when the OS process cannot be started (\<open>os_ok\<close> false)
  the Session Process "transitions directly to exited" and still occupies the id, and the
  SpawnError is propagated.
\<close>

definition pm_spawn :: "sid \<Rightarrow> spawn_opts \<Rightarrow> bool \<Rightarrow> pty_manager \<Rightarrow> pty_manager completion" where
  "pm_spawn i opts os_ok m =
     (case m i of
        Some p \<Rightarrow>
          if alive p then Throw DuplicateSessionError m
          else if os_ok then Return (m(i \<mapsto> new_process opts True))
          else Throw SpawnError (m(i \<mapsto> new_process opts False))
      | None \<Rightarrow>
          if os_ok then Return (m(i \<mapsto> new_process opts True))
          else Throw SpawnError (m(i \<mapsto> new_process opts False)))"

text \<open>
  Modelled from the spec: the OS process terminates. The state becomes exited and every
  registered exit callback is to be invoked, once; a process already exited notifies
  nobody. The callbacks to invoke are returned beside the new registry.
\<close>

definition pm_exit :: "sid \<Rightarrow> pty_manager \<Rightarrow> pty_manager \<times> exit_callback list" where
  "pm_exit i m =
     (case m i of
        None \<Rightarrow> (m, [])
      | Some p \<Rightarrow> if alive p then (m(i \<mapsto> p\<lparr>alive := False\<rparr>), exitListeners p) else (m, []))"

text \<open>
  Modelled from the spec: \<^verbatim>\<open>kill(id)\<close> "no-ops if id is unknown; otherwise kills the
  mapped Session Process (does not remove it from the map)"; the process's \<^verbatim>\<open>kill()\<close>
  "forcibly terminates the OS process if running; idempotent (no-op if already exited);
  triggers the same onExit notification path as a natural exit".
\<close>

definition pm_kill :: "sid \<Rightarrow> pty_manager \<Rightarrow> pty_manager \<times> exit_callback list" where
  "pm_kill i m =
     (case m i of
        None \<Rightarrow> (m, [])
      | Some p \<Rightarrow> if alive p then pm_exit i m else (m, []))"

text \<open>Modelled from the spec: \<^verbatim>\<open>write(id, data)\<close> "no-ops if id unknown" or if the process exited.\<close>

definition pm_write :: "sid \<Rightarrow> jsval \<Rightarrow> pty_manager \<Rightarrow> pty_manager" where
  "pm_write i d m =
     (case m i of
        None \<Rightarrow> m
      | Some p \<Rightarrow> if alive p then m(i \<mapsto> p\<lparr>written := written p @ [d]\<rparr>) else m)"

text \<open>Modelled from the spec: \<^verbatim>\<open>resize(id, cols, rows)\<close>, a no-op if unknown or exited.\<close>

definition pm_resize :: "sid \<Rightarrow> jsval \<Rightarrow> jsval \<Rightarrow> pty_manager \<Rightarrow> pty_manager" where
  "pm_resize i c r m =
     (case m i of
        None \<Rightarrow> m
      | Some p \<Rightarrow> if alive p then m(i \<mapsto> p\<lparr>dims := Some (c, r)\<rparr>) else m)"

text \<open>Modelled from the spec: \<^verbatim>\<open>isAlive(id)\<close> is "false if unknown or exited".\<close>

definition isAlive :: "sid \<Rightarrow> pty_manager \<Rightarrow> bool" where
  "isAlive i m = (case m i of None \<Rightarrow> False | Some p \<Rightarrow> alive p)"

text \<open>Modelled from the spec: \<^verbatim>\<open>getBuffer(id)\<close> is the "empty sequence if unknown".\<close>

definition getBuffer :: "sid \<Rightarrow> pty_manager \<Rightarrow> string list" where
  "getBuffer i m = (case m i of None \<Rightarrow> [] | Some p \<Rightarrow> buffer p)"

text \<open>
  Modelled from the spec: \<^verbatim>\<open>onData\<close>, \<^verbatim>\<open>offData\<close> and \<^verbatim>\<open>onExit\<close> "proxy to the Session
  Process's listener registration; no-ops if id unknown". The listeners are a set; they
  are kept in registration order, which is the order of delivery.
\<close>

definition onData :: "sid \<Rightarrow> lid \<Rightarrow> pty_manager \<Rightarrow> pty_manager" where
  "onData i l m =
     (case m i of
        None \<Rightarrow> m
      | Some p \<Rightarrow>
          if l \<in> set (dataListeners p) then m
          else m(i \<mapsto> p\<lparr>dataListeners := dataListeners p @ [l]\<rparr>))"

definition offData :: "sid \<Rightarrow> lid \<Rightarrow> pty_manager \<Rightarrow> pty_manager" where
  "offData i l m =
     (case m i of
        None \<Rightarrow> m
      | Some p \<Rightarrow> m(i \<mapsto> p\<lparr>dataListeners := removeAll l (dataListeners p)\<rparr>))"

definition onExit :: "sid \<Rightarrow> exit_callback \<Rightarrow> pty_manager \<Rightarrow> pty_manager" where
  "onExit i cb m =
     (case m i of
        None \<Rightarrow> m
      | Some p \<Rightarrow> m(i \<mapsto> p\<lparr>exitListeners := exitListeners p @ [cb]\<rparr>))"

text \<open>
  \<^verbatim>\<open>manager.getProcess(sessionId)\<close> with whatever value the message carried: the
  registry is keyed by strings, so only a string can find a process.
\<close>

definition getProcess :: "jsval \<Rightarrow> pty_manager \<Rightarrow> (sid \<times> pty_process) option" where
  "getProcess v m =
     (case v of
        Val (JStr i) \<Rightarrow> (case m i of None \<Rightarrow> None | Some p \<Rightarrow> Some (i, p))
      | _ \<Rightarrow> None)"

text \<open>
  Modelled from the spec: an output chunk arrives from the OS process. "Every chunk is
  (a) appended to the Ring Buffer and (b) delivered to every currently-registered
  listener, in that order"; an exited process delivers nothing. The listeners to call
  (a snapshot, in order) are returned beside the new registry.
\<close>

definition pm_data :: "sid \<Rightarrow> string \<Rightarrow> pty_manager \<Rightarrow> pty_manager \<times> lid list" where
  "pm_data i chunk m =
     (case m i of
        None \<Rightarrow> (m, [])
      | Some p \<Rightarrow>
          if alive p then (m(i \<mapsto> pushToBuffer chunk p), dataListeners p) else (m, []))"

section \<open>The session store (store.js)\<close>

text \<open>
  The file system is a map from paths to contents. The calls of \<^verbatim>\<open>node:fs\<close> belong to
  the runtime; whether a write or a rename fails is the environment's choice, given with
  each call. A failed write has created nothing, or has left a prefix of the data behind.
  Removing a file fails only when there is no such file.
\<close>

type_synonym filesystem = "string \<rightharpoonup> string"

datatype write_outcome = Written | Failed_before | Failed_after nat

record disk_env =
  randomUUID :: string
  write_result :: write_outcome
  rename_fails :: bool

fun writeFileSync :: "write_outcome \<Rightarrow> string \<Rightarrow> string \<Rightarrow> filesystem \<Rightarrow> filesystem completion" where
  "writeFileSync Written p d fs = Return (fs(p \<mapsto> d))"
| "writeFileSync Failed_before p d fs = Throw EIO fs"
| "writeFileSync (Failed_after n) p d fs = Throw EIO (fs(p \<mapsto> take n d))"

definition renameSync :: "bool \<Rightarrow> string \<Rightarrow> string \<Rightarrow> filesystem \<Rightarrow> filesystem completion" where
  "renameSync fails src dst fs =
     (case fs src of
        None \<Rightarrow> Throw ENOENT fs
      | Some d \<Rightarrow>
          if fails then Throw EIO fs
          else if src = dst then Return fs
          else Return ((fs(dst \<mapsto> d))(src := None)))"

definition unlinkSync :: "string \<Rightarrow> filesystem \<Rightarrow> filesystem completion" where
  "unlinkSync p fs = (case fs p of None \<Rightarrow> Throw ENOENT fs | Some d \<Rightarrow> Return (fs(p := None)))"

text \<open>\<^verbatim>\<open>const STORE_PATH = path.join(__dirname, 'sessions.json')\<close>\<close>

definition STORE_PATH :: "string \<Rightarrow> string" where
  "STORE_PATH dir = dir @ ''/sessions.json''"

text \<open>
  \<^verbatim>\<open>const tmp = STORE_PATH + '.tmp.' + crypto.randomUUID().slice(0, 8)\<close>
\<close>

definition tmp_path :: "disk_env \<Rightarrow> string \<Rightarrow> string" where
  "tmp_path env dir = STORE_PATH dir @ ''.tmp.'' @ take 8 (randomUUID env)"

text \<open>
  \<^verbatim>\<open>saveSessions(sessions)\<close>. \<^verbatim>\<open>JSON.stringify\<close> is the runtime's and is a parameter;
  the message printed by \<^verbatim>\<open>console.error\<close> changes no state and is left out.
\<close>

definition saveSessions ::
  "disk_env \<Rightarrow> string \<Rightarrow> ('a \<Rightarrow> string) \<Rightarrow> 'a \<Rightarrow> filesystem \<Rightarrow> filesystem completion" where
  "saveSessions env dir stringify sessions fs =
     try_catch
       (and_then (writeFileSync (write_result env) (tmp_path env dir) (stringify sessions) fs)
          (renameSync (rename_fails env) (tmp_path env dir) (STORE_PATH dir)))
       (\<lambda>e fs'. try_catch (unlinkSync (tmp_path env dir) fs') (\<lambda>e' fs''. Return fs''))"

section \<open>The resume token pattern\<close>

text \<open>
  \<^verbatim>\<open>/[0-9a-f]{8}-[0-9a-f]{4}-[0-9a-f]{4}-[0-9a-f]{4}-[0-9a-f]{12}/i\<close>: whether the
  pattern matches at the start of a string, and \<^verbatim>\<open>data.match(uuidRegex)\<close>, which gives
  the leftmost match (\<^verbatim>\<open>match[0]\<close>) or \<^verbatim>\<open>null\<close>.
\<close>

definition hex_digit :: "char \<Rightarrow> bool" where
  "hex_digit c = (c \<in> set ''0123456789abcdefABCDEF'')"

definition hex_group :: "nat \<Rightarrow> nat \<Rightarrow> string \<Rightarrow> bool" where
  "hex_group at n s = list_all hex_digit (take n (drop at s))"

definition uuid_here :: "string \<Rightarrow> bool" where
  "uuid_here s =
     (36 \<le> length s \<and> hex_group 0 8 s \<and> s ! 8 = CHR ''-'' \<and> hex_group 9 4 s \<and>
      s ! 13 = CHR ''-'' \<and> hex_group 14 4 s \<and> s ! 18 = CHR ''-'' \<and> hex_group 19 4 s \<and>
      s ! 23 = CHR ''-'' \<and> hex_group 24 12 s)"

fun match_uuid :: "string \<Rightarrow> string option" where
  "match_uuid [] = None"
| "match_uuid (c # cs) = (if uuid_here (c # cs) then Some (take 36 (c # cs)) else match_uuid cs)"

section \<open>The server (server.js)\<close>

record session =
  session_id :: string
  session_name :: string
  cwd :: string
  claudeSessionId :: "string option"
  status :: string
  createdAt :: string

text \<open>The messages the server sends, before \<^verbatim>\<open>JSON.stringify\<close>.\<close>

datatype message =
  Sessions "(session \<times> bool) list" | Output sid string | Replay_done sid | Exited sid

text \<open>
  A WebSocket of the \<^verbatim>\<open>ws\<close> library: its \<^verbatim>\<open>readyState\<close> (1 is OPEN), whether
  \<^verbatim>\<open>send\<close> would throw now, and what has been sent on it.
\<close>

record websocket =
  readyState :: nat
  send_throws :: bool
  sent :: "message list"

definition ws_send :: "websocket \<Rightarrow> message \<Rightarrow> websocket completion" where
  "ws_send ws d = (if send_throws ws then Throw SendError ws else Return (ws\<lparr>sent := sent ws @ [d]\<rparr>))"

definition safeSend :: "websocket \<Rightarrow> message \<Rightarrow> websocket completion" where
  "safeSend ws d =
     (if readyState ws = 1 then try_catch (ws_send ws d) (\<lambda>e ws'. Return ws') else Return ws)"

text \<open>
  The two kinds of function registered with \<^verbatim>\<open>manager.onData\<close>, with the constants they
  close over: \<^verbatim>\<open>captureListener\<close> (the session object) and the connection's
  \<^verbatim>\<open>dataListener\<close> (the socket and the session id). A function object is known by its
  identity, a number; the variables \<^verbatim>\<open>replaying\<close> and \<^verbatim>\<open>pendingData\<close> a \<^verbatim>\<open>dataListener\<close>
  closes over are cells of the server state under that identity.
\<close>

datatype closure = CaptureListener ref | DataListener cid sid

text \<open>The variables of one connection: \<^verbatim>\<open>attachedSessionId\<close> and \<^verbatim>\<open>dataListener\<close>.\<close>

record connection =
  attachedSessionId :: "sid option"
  dataListener :: "lid option"

text \<open>
  The state of \<^verbatim>\<open>createServer\<close>: its variables, the session objects (a store, since the
  array and the callbacks share them), the sockets, the function objects created so far,
  and the file system with the environment of each call of \<^verbatim>\<open>saveSessions\<close>.
\<close>

record server =
  testMode :: bool
  manager :: pty_manager
  heap :: "ref \<Rightarrow> session"
  allocated :: nat
  sessions :: "ref list"
  clients :: "cid list"
  opened :: nat
  sockets :: "cid \<Rightarrow> websocket"
  conns :: "cid \<Rightarrow> connection"
  closures :: "lid \<Rightarrow> closure"
  replaying :: "lid \<Rightarrow> bool"
  pendingData :: "lid \<Rightarrow> string list"
  fresh :: nat
  files :: filesystem
  dirname :: string
  stringify :: "session list \<Rightarrow> string"
  disk :: "nat \<Rightarrow> disk_env"
  saves :: nat

text \<open>\<^verbatim>\<open>if (!testMode) saveSessions(sessions)\<close>\<close>

definition persist :: "server \<Rightarrow> server completion" where
  "persist s =
     (if testMode s then Return s
      else lift (\<lambda>fs. s\<lparr>files := fs, saves := Suc (saves s)\<rparr>)
             (saveSessions (disk s (saves s)) (dirname s) (stringify s)
                (map (heap s) (sessions s)) (files s)))"

text \<open>\<^verbatim>\<open>safeSend(ws, data)\<close> on the socket \<open>c\<close> of the server state.\<close>

definition send_to :: "cid \<Rightarrow> message \<Rightarrow> server \<Rightarrow> server completion" where
  "send_to c d s = lift (\<lambda>w. s\<lparr>sockets := (sockets s)(c := w)\<rparr>) (safeSend (sockets s c) d)"

text \<open>\<^verbatim>\<open>for (const ws of clients) safeSend(ws, msg)\<close>\<close>

fun send_each :: "cid list \<Rightarrow> message \<Rightarrow> server \<Rightarrow> server completion" where
  "send_each [] d s = Return s"
| "send_each (c # cs) d s = and_then (send_to c d s) (send_each cs d)"

text \<open>\<^verbatim>\<open>for (const chunk of buffer) safeSend(ws, ...)\<close>\<close>

fun send_list :: "cid \<Rightarrow> message list \<Rightarrow> server \<Rightarrow> server completion" where
  "send_list c [] s = Return s"
| "send_list c (d # ds) s = and_then (send_to c d s) (send_list c ds)"

definition sessions_msg :: "server \<Rightarrow> message" where
  "sessions_msg s =
     Sessions (map (\<lambda>r. (heap s r, isAlive (session_id (heap s r)) (manager s))) (sessions s))"

definition broadcastSessions :: "server \<Rightarrow> server completion" where
  "broadcastSessions s = send_each (clients s) (sessions_msg s) s"

text \<open>
  \<^verbatim>\<open>captureListener(data)\<close>, the function object \<open>l\<close> closing over the session \<open>r\<close>.
\<close>

definition captureListener :: "lid \<Rightarrow> ref \<Rightarrow> string \<Rightarrow> server \<Rightarrow> server completion" where
  "captureListener l r data s =
     (case match_uuid data of
        None \<Rightarrow> Return s
      | Some u \<Rightarrow>
          and_then
            (persist (s\<lparr>heap := (heap s)(r := (heap s r)\<lparr>claudeSessionId := Some u\<rparr>),
                        manager := offData (session_id (heap s r)) l (manager s)\<rparr>))
            broadcastSessions)"

text \<open>The connection's \<^verbatim>\<open>dataListener(data)\<close>, the function object \<open>l\<close>.\<close>

definition dataListener_fn :: "lid \<Rightarrow> cid \<Rightarrow> sid \<Rightarrow> string \<Rightarrow> server \<Rightarrow> server completion" where
  "dataListener_fn l c i data s =
     (if replaying s l then Return (s\<lparr>pendingData := (pendingData s)(l := pendingData s l @ [data])\<rparr>)
      else send_to c (Output i data) s)"

definition call_listener :: "lid \<Rightarrow> string \<Rightarrow> server \<Rightarrow> server completion" where
  "call_listener l data s =
     (case closures s l of
        CaptureListener r \<Rightarrow> captureListener l r data s
      | DataListener c i \<Rightarrow> dataListener_fn l c i data s)"

fun call_listeners :: "lid list \<Rightarrow> string \<Rightarrow> server \<Rightarrow> server completion" where
  "call_listeners [] data s = Return s"
| "call_listeners (l # ls) data s = and_then (call_listener l data s) (call_listeners ls data)"

text \<open>A chunk of output arrives from the pseudo-terminal of session \<open>i\<close>.\<close>

definition on_pty_data :: "sid \<Rightarrow> string \<Rightarrow> server \<Rightarrow> server completion" where
  "on_pty_data i chunk s =
     (case pm_data i chunk (manager s) of (m, ls) \<Rightarrow> call_listeners ls chunk (s\<lparr>manager := m\<rparr>))"

text \<open>The two callbacks of \<^verbatim>\<open>manager.onExit\<close>.\<close>

fun call_exit :: "exit_callback \<Rightarrow> server \<Rightarrow> server completion" where
  "call_exit (ExitHandler r) s =
     and_then
       (and_then (persist (s\<lparr>heap := (heap s)(r := (heap s r)\<lparr>status := ''exited''\<rparr>)\<rparr>))
          broadcastSessions)
       (\<lambda>s'. send_each (clients s') (Exited (session_id (heap s' r))) s')"
| "call_exit (CaptureCleanup r l) s =
     Return (s\<lparr>manager := offData (session_id (heap s r)) l (manager s)\<rparr>)"

fun call_exits :: "exit_callback list \<Rightarrow> server \<Rightarrow> server completion" where
  "call_exits [] s = Return s"
| "call_exits (cb # cbs) s = and_then (call_exit cb s) (call_exits cbs)"

text \<open>The process of session \<open>i\<close> terminates by itself.\<close>

definition on_pty_exit :: "sid \<Rightarrow> server \<Rightarrow> server completion" where
  "on_pty_exit i s =
     (case pm_exit i (manager s) of (m, cbs) \<Rightarrow> call_exits cbs (s\<lparr>manager := m\<rparr>))"

text \<open>\<^verbatim>\<open>manager.kill(id)\<close>, with the exit callbacks it triggers.\<close>

definition kill :: "sid \<Rightarrow> server \<Rightarrow> server completion" where
  "kill i s =
     (case pm_kill i (manager s) of (m, cbs) \<Rightarrow> call_exits cbs (s\<lparr>manager := m\<rparr>))"

text \<open>
  \<^verbatim>\<open>spawnSession(session)\<close>; \<open>os_ok\<close> says whether the operating system starts the
  process.
\<close>

definition spawnOpts :: "bool \<Rightarrow> session \<Rightarrow> spawn_opts" where
  "spawnOpts tm session =
     \<lparr>opt_cwd = cwd session,
      opt_shell = (if tm then Some ''/bin/bash'' else None),
      opt_args = (if tm then Some [''-c'', ''sleep 3600''] else None),
      opt_resumeId =
        (if tm then None
         else case claudeSessionId session of
                None \<Rightarrow> None
              | Some u \<Rightarrow> if u \<noteq> [] then Some u else None)\<rparr>"

definition spawnSession :: "ref \<Rightarrow> bool \<Rightarrow> server \<Rightarrow> server completion" where
  "spawnSession r os_ok s =
     (let i = session_id (heap s r) in
      case pm_spawn i (spawnOpts (testMode s) (heap s r)) os_ok (manager s) of
        Throw e m \<Rightarrow>
          and_then
            (and_then
               (persist (s\<lparr>manager := m, heap := (heap s)(r := (heap s r)\<lparr>status := ''exited''\<rparr>)\<rparr>))
               broadcastSessions)
            (Throw e)
      | Return m \<Rightarrow>
          let s1 = s\<lparr>manager := onExit i (ExitHandler r) m\<rparr> in
          if testMode s then Return s1
          else
            Return (s1\<lparr>closures := (closures s1)(fresh s1 := CaptureListener r),
                       fresh := Suc (fresh s1),
                       manager :=
                         onExit i (CaptureCleanup r (fresh s1)) (onData i (fresh s1) (manager s1))\<rparr>))"

text \<open>
  \<^verbatim>\<open>wss.on('connection', (ws) => ...)\<close>: the socket is a new object, the next
  identity not yet given out.
\<close>

definition on_connection :: "server \<Rightarrow> server completion" where
  "on_connection s =
     (let c = opened s;
          s1 = s\<lparr>opened := Suc c,
                 clients := (if c \<in> set (clients s) then clients s else clients s @ [c]),
                 conns := (conns s)(c := \<lparr>attachedSessionId = None, dataListener = None\<rparr>)\<rparr>
      in send_to c (sessions_msg s1) s1)"

text \<open>
  \<^verbatim>\<open>if (attachedSessionId && dataListener) { manager.offData(...); dataListener = null }\<close>
\<close>

definition detach_previous :: "cid \<Rightarrow> server \<Rightarrow> server" where
  "detach_previous c s =
     (case (attachedSessionId (conns s c), dataListener (conns s c)) of
        (Some a, Some l) \<Rightarrow>
          if a \<noteq> [] then
            s\<lparr>manager := offData a l (manager s),
              conns := (conns s)(c := (conns s c)\<lparr>dataListener := None\<rparr>)\<rparr>
          else s
      | _ \<Rightarrow> s)"

text \<open>
  \<^verbatim>\<open>replaying = false; for (const data of pendingData) safeSend(ws, ...)\<close>
\<close>

definition flush :: "cid \<Rightarrow> sid \<Rightarrow> lid \<Rightarrow> server \<Rightarrow> server completion" where
  "flush c i l s =
     send_list c (map (Output i) (pendingData s l)) (s\<lparr>replaying := (replaying s)(l := False)\<rparr>)"

text \<open>The case \<^verbatim>\<open>'attach'\<close> of the message handler of connection \<open>c\<close>.\<close>

definition attach :: "cid \<Rightarrow> json \<Rightarrow> server \<Rightarrow> server completion" where
  "attach c msg s =
     (let sessionId = prop_of msg ''sessionId''; cols = prop_of msg ''cols''; rows = prop_of msg ''rows''
      in case getProcess sessionId (manager s) of
           None \<Rightarrow> Return s
         | Some (i, proc) \<Rightarrow>
             let s1 = detach_previous c s;
                 s2 = s1\<lparr>conns := (conns s1)(c := (conns s1 c)\<lparr>attachedSessionId := Some i\<rparr>)\<rparr>;
                 s3 = (if truthy cols \<and> truthy rows
                       then s2\<lparr>manager := pm_resize i cols rows (manager s2)\<rparr> else s2);
                 l = fresh s3;
                 s4 = s3\<lparr>fresh := Suc l,
                         closures := (closures s3)(l := DataListener c i),
                         pendingData := (pendingData s3)(l := []),
                         replaying := (replaying s3)(l := True),
                         conns := (conns s3)(c := (conns s3 c)\<lparr>dataListener := Some l\<rparr>),
                         manager := onData i l (manager s3)\<rparr>
             in and_then
                  (and_then (send_list c (map (Output i) (getBuffer i (manager s4))) s4)
                     (send_to c (Replay_done i)))
                  (flush c i l))"

text \<open>The cases \<^verbatim>\<open>'input'\<close> and \<^verbatim>\<open>'resize'\<close>.\<close>

definition input :: "cid \<Rightarrow> json \<Rightarrow> server \<Rightarrow> server completion" where
  "input c msg s =
     (case attachedSessionId (conns s c) of
        None \<Rightarrow> Return s
      | Some a \<Rightarrow>
          if a \<noteq> [] then Return (s\<lparr>manager := pm_write a (prop_of msg ''data'') (manager s)\<rparr>)
          else Return s)"

definition resize :: "cid \<Rightarrow> json \<Rightarrow> server \<Rightarrow> server completion" where
  "resize c msg s =
     (case attachedSessionId (conns s c) of
        None \<Rightarrow> Return s
      | Some a \<Rightarrow>
          if a \<noteq> [] \<and> truthy (prop_of msg ''cols'') \<and> truthy (prop_of msg ''rows'')
          then Return (s\<lparr>manager := pm_resize a (prop_of msg ''cols'') (prop_of msg ''rows'') (manager s)\<rparr>)
          else Return s)"

text \<open>
  \<^verbatim>\<open>ws.on('message', (raw) => ...)\<close>: the guarded \<^verbatim>\<open>JSON.parse\<close>, then the switch on
  \<^verbatim>\<open>msg.type\<close>, which is read outside the guard.
\<close>

definition on_message :: "cid \<Rightarrow> payload \<Rightarrow> server \<Rightarrow> server completion" where
  "on_message c raw s =
     (case raw of
        Not_json \<Rightarrow> Return s
      | Json msg \<Rightarrow>
          (case get_prop msg ''type'' of
             Inl e \<Rightarrow> Throw e s
           | Inr t \<Rightarrow>
               if t = Val (JStr ''attach'') then attach c msg s
               else if t = Val (JStr ''input'') then input c msg s
               else if t = Val (JStr ''resize'') then resize c msg s
               else Return s))"

text \<open>\<^verbatim>\<open>ws.on('close', ...)\<close>\<close>

definition on_close :: "cid \<Rightarrow> server \<Rightarrow> server completion" where
  "on_close c s =
     (let s1 = s\<lparr>clients := removeAll c (clients s)\<rparr> in
      case (attachedSessionId (conns s1 c), dataListener (conns s1 c)) of
        (Some a, Some l) \<Rightarrow>
          if a \<noteq> [] then Return (s1\<lparr>manager := offData a l (manager s1)\<rparr>) else Return s1
      | _ \<Rightarrow> Return s1)"

section \<open>The REST handlers, as far as they touch the sessions\<close>

text \<open>
  \<^verbatim>\<open>POST /api/sessions\<close> for a request that passed validation: the session object is
  created with a random UUID as its id, pushed, persisted and spawned. The HTTP response
  is left out.
\<close>

definition api_create :: "string \<Rightarrow> string \<Rightarrow> string \<Rightarrow> string \<Rightarrow> bool \<Rightarrow> server \<Rightarrow> server completion" where
  "api_create uuid name dir now os_ok s =
     (let r = allocated s;
          session = \<lparr>session_id = uuid, session_name = name, cwd = dir, claudeSessionId = None,
                     status = ''running'', createdAt = now\<rparr>
      in and_then
           (persist (s\<lparr>heap := (heap s)(r := session), allocated := Suc r,
                       sessions := sessions s @ [r]\<rparr>))
           (\<lambda>s1. case spawnSession r os_ok s1 of
                    Throw e s2 \<Rightarrow> Return s2
                  | Return s2 \<Rightarrow> broadcastSessions s2))"

text \<open>\<^verbatim>\<open>POST /api/sessions/:id/restart\<close>\<close>

definition api_restart :: "string \<Rightarrow> bool \<Rightarrow> server \<Rightarrow> server completion" where
  "api_restart i os_ok s =
     (case find (\<lambda>r. session_id (heap s r) = i) (sessions s) of
        None \<Rightarrow> Return s
      | Some r \<Rightarrow>
          and_then
            (if isAlive (session_id (heap s r)) (manager s) then kill (session_id (heap s r)) s
             else Return s)
            (\<lambda>s1. and_then
                     (persist (s1\<lparr>heap := (heap s1)(r := (heap s1 r)\<lparr>status := ''running''\<rparr>)\<rparr>))
                     (\<lambda>s2. case spawnSession r os_ok s2 of
                              Throw e s3 \<Rightarrow> Return s3
                            | Return s3 \<Rightarrow> broadcastSessions s3)))"

text \<open>
  \<^verbatim>\<open>DELETE /api/sessions/:id\<close>: the first session with the id is killed and spliced out
  of the array.
\<close>

definition api_delete :: "string \<Rightarrow> server \<Rightarrow> server completion" where
  "api_delete i s =
     (case find (\<lambda>r. session_id (heap s r) = i) (sessions s) of
        None \<Rightarrow> Return s
      | Some r \<Rightarrow>
          and_then (kill (session_id (heap s r)) s)
            (\<lambda>s1. and_then (persist (s1\<lparr>sessions := remove1 r (sessions s1)\<rparr>)) broadcastSessions))"

section \<open>The server as a transition system\<close>

text \<open>
  The startup loop of \<^verbatim>\<open>createServer\<close>: a stored session that is marked running and
  has a resume token is spawned again; when that throws, the session is marked exited.
  \<open>os_ok\<close> says for each session whether the operating system starts its process.
\<close>

definition resume :: "(ref \<Rightarrow> bool) \<Rightarrow> ref \<Rightarrow> server \<Rightarrow> server" where
  "resume os_ok r s =
     (if status (heap s r) = ''running'' \<and>
         (case claudeSessionId (heap s r) of None \<Rightarrow> False | Some u \<Rightarrow> u \<noteq> [])
      then (case spawnSession r (os_ok r) s of
              Return s' \<Rightarrow> s'
            | Throw e s' \<Rightarrow> s'\<lparr>heap := (heap s')(r := (heap s' r)\<lparr>status := ''exited''\<rparr>)\<rparr>)
      else s)"

fun resume_all :: "(ref \<Rightarrow> bool) \<Rightarrow> ref list \<Rightarrow> server \<Rightarrow> server" where
  "resume_all os_ok [] s = s"
| "resume_all os_ok (r # rs) s = resume_all os_ok rs (resume os_ok r s)"

text \<open>
  \<^verbatim>\<open>createServer({ testMode })\<close>: no clients and no processes; in test mode no sessions,
  otherwise the sessions \<^verbatim>\<open>loadSessions()\<close> returned (\<open>loaded\<close>; the empty list when there
  is no readable store), resumed and persisted. The runtime's part (file system,
  serializer, the outcome of each save) is given.
\<close>

definition createServer ::
  "bool \<Rightarrow> string \<Rightarrow> (session list \<Rightarrow> string) \<Rightarrow> (nat \<Rightarrow> disk_env) \<Rightarrow> filesystem \<Rightarrow>
   session list \<Rightarrow> (ref \<Rightarrow> bool) \<Rightarrow> server" where
  "createServer tm dir strfy env fs loaded os_ok =
     (let stored = (if tm then [] else loaded);
          s0 = \<lparr>testMode = tm, manager = Map.empty,
                heap = (\<lambda>r. if r < length stored then stored ! r
                             else \<lparr>session_id = [], session_name = [], cwd = [],
                                   claudeSessionId = None, status = [], createdAt = []\<rparr>),
                allocated = length stored, sessions = [0..<length stored], clients = [],
                opened = 0,
                sockets = (\<lambda>c. \<lparr>readyState = 0, send_throws = False, sent = []\<rparr>),
                conns = (\<lambda>c. \<lparr>attachedSessionId = None, dataListener = None\<rparr>),
                closures = (\<lambda>l. CaptureListener 0), replaying = (\<lambda>l. False),
                pendingData = (\<lambda>l. []),
                fresh = 0, files = fs, dirname = dir, stringify = strfy, disk = env, saves = 0\<rparr>
      in if tm then s0 else state_of (persist (resume_all os_ok (sessions s0) s0)))"

text \<open>
  What can happen to the server: a socket connects, sends a message, closes or changes
  its state; a pseudo-terminal produces output or its process exits; a REST request
  creates, restarts or deletes a session.
\<close>

datatype event =
  Connection
| Message cid payload
| Close cid
| Socket cid nat bool
| PtyData sid string
| PtyExit sid
| ApiCreate string string string string bool
| ApiRestart string bool
| ApiDelete string

fun step :: "event \<Rightarrow> server \<Rightarrow> server completion" where
  "step Connection s = on_connection s"
| "step (Message c raw) s = on_message c raw s"
| "step (Close c) s = on_close c s"
| "step (Socket c rs t) s =
     Return (s\<lparr>sockets := (sockets s)(c := (sockets s c)\<lparr>readyState := rs, send_throws := t\<rparr>)\<rparr>)"
| "step (PtyData i chunk) s = on_pty_data i chunk s"
| "step (PtyExit i) s = on_pty_exit i s"
| "step (ApiCreate uuid name dir now os_ok) s = api_create uuid name dir now os_ok s"
| "step (ApiRestart i os_ok) s = api_restart i os_ok s"
| "step (ApiDelete i) s = api_delete i s"

text \<open>
  An event the environment can produce in a state: messages and closes come from sockets
  that have connected, and \<^verbatim>\<open>crypto.randomUUID()\<close> gives a UUID. The server starts on a store
  it wrote itself, so no stored session has the empty id.
\<close>

fun admissible :: "server \<Rightarrow> event \<Rightarrow> bool" where
  "admissible s (Message c raw) = (c < opened s)"
| "admissible s (Close c) = (c < opened s)"
| "admissible s (ApiCreate uuid name dir now os_ok) = (uuid_here uuid \<and> length uuid = 36)"
| "admissible s e = True"

inductive reachable :: "server \<Rightarrow> bool" where
  start: "\<forall>x \<in> set loaded. session_id x \<noteq> [] \<Longrightarrow>
          reachable (createServer tm dir strfy env fs loaded os_ok)"
| after: "reachable s \<Longrightarrow> admissible s e \<Longrightarrow> reachable (state_of (step e s))"

text \<open>The state after a list of events, whether or not a handler threw.\<close>

fun run :: "event list \<Rightarrow> server \<Rightarrow> server" where
  "run [] s = s"
| "run (e # es) s = run es (state_of (step e s))"

section \<open>Notions the properties are stated with\<close>

text \<open>The output listeners and the exit callbacks registered on session \<open>i\<close>.\<close>

definition listeners :: "pty_manager \<Rightarrow> sid \<Rightarrow> lid list" where
  "listeners m i = (case m i of None \<Rightarrow> [] | Some p \<Rightarrow> dataListeners p)"

definition callbacks :: "pty_manager \<Rightarrow> sid \<Rightarrow> exit_callback list" where
  "callbacks m i = (case m i of None \<Rightarrow> [] | Some p \<Rightarrow> exitListeners p)"

text \<open>The function object \<open>l\<close> is registered as an output listener of session \<open>i\<close>.\<close>

definition registered :: "server \<Rightarrow> sid \<Rightarrow> lid \<Rightarrow> bool" where
  "registered s i l = (l \<in> set (listeners (manager s) i))"

text \<open>The registrations of connection \<open>c\<close>: a session and a \<^verbatim>\<open>dataListener\<close> of \<open>c\<close> on it.\<close>

definition listening :: "server \<Rightarrow> cid \<Rightarrow> (sid \<times> lid) set" where
  "listening s c = {(i, l). registered s i l \<and> (\<exists>j. closures s l = DataListener c j)}"

text \<open>The output stream a viewer sees on a socket: tagged chunks and replay markers.\<close>

fun stream_msg :: "message \<Rightarrow> bool" where
  "stream_msg (Output i d) = True"
| "stream_msg (Replay_done i) = True"
| "stream_msg (Sessions ss) = False"
| "stream_msg (Exited i) = False"

definition stream :: "server \<Rightarrow> cid \<Rightarrow> message list" where
  "stream s c = filter stream_msg (sent (sockets s c))"

text \<open>The chunks session \<open>i\<close> produces within a list of events.\<close>

fun produced :: "sid \<Rightarrow> event list \<Rightarrow> string list" where
  "produced i [] = []"
| "produced i (PtyData j d # es) = (if j = i then d # produced i es else produced i es)"
| "produced i (e # es) = produced i es"

fun is_pty_data :: "event \<Rightarrow> bool" where
  "is_pty_data (PtyData i d) = True"
| "is_pty_data e = False"

text \<open>
  The invariant of the reachable states: no session has the empty id; listeners are
  function objects already created, each registered once; a connection's \<^verbatim>\<open>dataListener\<close>
  is registered nowhere but on the session the connection is attached to, and is the one
  the connection holds; the cleanup callbacks name capture listeners.
\<close>

definition invariant :: "server \<Rightarrow> bool" where
  "invariant s \<longleftrightarrow>
     manager s [] = None \<and>
     (\<forall>r \<in> set (sessions s). session_id (heap s r) \<noteq> []) \<and>
     (\<forall>i l. l \<in> set (listeners (manager s) i) \<longrightarrow> l < fresh s) \<and>
     (\<forall>i. distinct (listeners (manager s) i)) \<and>
     (\<forall>c. opened s \<le> c \<longrightarrow> attachedSessionId (conns s c) = None) \<and>
     (\<forall>i l c j. l \<in> set (listeners (manager s) i) \<longrightarrow> closures s l = DataListener c j \<longrightarrow>
        j = i \<and> \<not> replaying s l \<and>
        attachedSessionId (conns s c) = Some i \<and> dataListener (conns s c) = Some l) \<and>
     (\<forall>c l. dataListener (conns s c) = Some l \<longrightarrow>
        l < fresh s \<and> (\<exists>j. closures s l = DataListener c j)) \<and>
     (\<forall>i r l. CaptureCleanup r l \<in> set (callbacks (manager s) i) \<longrightarrow>
        l < fresh s \<and> (\<exists>r'. closures s l = CaptureListener r'))"

text \<open>The ring buffer of a process after a sequence of appends.\<close>

fun appends :: "string list \<Rightarrow> pty_process \<Rightarrow> pty_process" where
  "appends [] p = p"
| "appends (c # cs) p = appends cs (pushToBuffer c p)"

text \<open>
  A state and a later one between which nothing happened but sending, persisting,
  changes to session objects other than their ids, changes inside processes, and the
  unregistering of listeners that are no connection's \<^verbatim>\<open>dataListener\<close>.
\<close>

definition evolves :: "server \<Rightarrow> server \<Rightarrow> bool" where
  "evolves s s' \<longleftrightarrow>
     conns s' = conns s \<and> closures s' = closures s \<and> replaying s' = replaying s \<and>
     fresh s' = fresh s \<and> opened s' = opened s \<and> clients s' = clients s \<and>
     testMode s' = testMode s \<and> sessions s' = sessions s \<and>
     (\<forall>r. session_id (heap s' r) = session_id (heap s r)) \<and>
     (\<forall>i. (manager s' i = None) = (manager s i = None)) \<and>
     (\<forall>i. set (listeners (manager s') i) \<subseteq> set (listeners (manager s) i)) \<and>
     (\<forall>i. distinct (listeners (manager s) i) \<longrightarrow> distinct (listeners (manager s') i)) \<and>
     (\<forall>i l c j. l \<in> set (listeners (manager s) i) \<longrightarrow> closures s l = DataListener c j \<longrightarrow>
        l \<in> set (listeners (manager s') i)) \<and>
     (\<forall>i. callbacks (manager s') i = callbacks (manager s) i) \<and>
     (\<forall>c. readyState (sockets s' c) = readyState (sockets s c) \<and>
          send_throws (sockets s' c) = send_throws (sockets s c) \<and>
          (\<exists>ms. sent (sockets s' c) = sent (sockets s c) @ ms))"

text \<open>A cleanup callback names a function object that is a capture listener.\<close>

fun names_capture :: "server \<Rightarrow> exit_callback \<Rightarrow> bool" where
  "names_capture s (ExitHandler r) = True"
| "names_capture s (CaptureCleanup r l) = (\<exists>r'. closures s l = CaptureListener r')"

text \<open>
  A socket that takes what is sent (\<^verbatim>\<open>readyState\<close> is OPEN and \<^verbatim>\<open>send\<close> does not
  throw), and a socket after a list of messages was passed to \<^verbatim>\<open>safeSend\<close>.
\<close>

definition is_open :: "websocket \<Rightarrow> bool" where
  "is_open w \<longleftrightarrow> readyState w = 1 \<and> \<not> send_throws w"

definition deliver :: "websocket \<Rightarrow> message list \<Rightarrow> websocket" where
  "deliver w ds = (if is_open w then w\<lparr>sent := sent w @ ds\<rparr> else w)"

text \<open>
  The state the \<^verbatim>\<open>'attach'\<close> case has built when it starts the replay, with the flag
  \<^verbatim>\<open>replaying\<close> already as it is left at the end: the previous listener removed, the
  session id stored, the terminal resized, the new listener installed.
\<close>

definition installed :: "cid \<Rightarrow> sid \<Rightarrow> jsval \<Rightarrow> jsval \<Rightarrow> server \<Rightarrow> server" where
  "installed c i cols rows s =
     (let s1 = detach_previous c s;
          s3 = s1\<lparr>manager := (if truthy cols \<and> truthy rows
                                then pm_resize i cols rows (manager s1) else manager s1)\<rparr>
      in s3\<lparr>fresh := Suc (fresh s3),
             closures := (closures s3)(fresh s3 := DataListener c i),
             replaying := (replaying s3)(fresh s3 := False),
             conns := (conns s3)(c := (conns s3 c)\<lparr>attachedSessionId := Some i,
                                                    dataListener := Some (fresh s3)\<rparr>),
             manager := onData i (fresh s3) (manager s3)\<rparr>)"

text \<open>What one call of the listener \<open>l\<close> with the chunk \<open>d\<close> adds to the stream of connection \<open>c\<close>,
  when the listener is not replaying.\<close>

definition delta :: "server \<Rightarrow> cid \<Rightarrow> string \<Rightarrow> lid \<Rightarrow> message list" where
  "delta s c d l =
     (case closures s l of
        CaptureListener r \<Rightarrow> []
      | DataListener c' k \<Rightarrow> if c' = c \<and> is_open (sockets s c) then [Output k d] else [])"

text \<open>Two states with the same processes running and the same stream on every socket.\<close>

definition steady :: "server \<Rightarrow> server \<Rightarrow> bool" where
  "steady s s' \<longleftrightarrow>
     (\<forall>i. isAlive i (manager s') = isAlive i (manager s)) \<and> (\<forall>c. stream s' c = stream s c)"

text \<open>Between two states the attachment of connection \<open>c\<close> to session \<open>i\<close> through the listener
  \<open>l\<close> was kept: the connection's variables, the function object, its registration, the
  running process and the open socket.\<close>

definition kept :: "cid \<Rightarrow> sid \<Rightarrow> lid \<Rightarrow> server \<Rightarrow> server \<Rightarrow> bool" where
  "kept c i l s s' \<longleftrightarrow>
     conns s' c = conns s c \<and> closures s' l = closures s l \<and>
     (l \<in> set (listeners (manager s) i) \<longrightarrow> l \<in> set (listeners (manager s') i)) \<and>
     isAlive i (manager s') = isAlive i (manager s) \<and>
     is_open (sockets s' c) = is_open (sockets s c)"

text \<open>The attachment was kept and nothing was added to the stream of the connection.\<close>

definition quiet :: "cid \<Rightarrow> sid \<Rightarrow> lid \<Rightarrow> server \<Rightarrow> server \<Rightarrow> bool" where
  "quiet c i l s s' \<longleftrightarrow> kept c i l s s' \<and> stream s' c = stream s c"

text \<open>Connection \<open>c\<close> is attached to the running session \<open>i\<close> through the registered listener
  \<open>l\<close>, and its socket takes what is sent.\<close>

definition live :: "server \<Rightarrow> cid \<Rightarrow> sid \<Rightarrow> lid \<Rightarrow> bool" where
  "live s c i l \<longleftrightarrow>
     attachedSessionId (conns s c) = Some i \<and> dataListener (conns s c) = Some l \<and>
     l \<in> set (listeners (manager s) i) \<and> closures s l = DataListener c i \<and>
     isAlive i (manager s) \<and> is_open (sockets s c)"

text \<open>Events that leave the attachment of connection \<open>c\<close> to session \<open>i\<close> to itself: the
  connection sends nothing more, is not closed and its socket keeps its state; the session's
  process does not exit and the session is not created anew, restarted or deleted.\<close>

fun undisturbed :: "cid \<Rightarrow> sid \<Rightarrow> event \<Rightarrow> bool" where
  "undisturbed c i (Message c' raw) = (c' \<noteq> c)"
| "undisturbed c i (Close c') = (c' \<noteq> c)"
| "undisturbed c i (Socket c' rs t) = (c' \<noteq> c)"
| "undisturbed c i (PtyExit j) = (j \<noteq> i)"
| "undisturbed c i (ApiCreate uuid name dir now ok) = (uuid \<noteq> i)"
| "undisturbed c i (ApiRestart j ok) = (j \<noteq> i)"
| "undisturbed c i (ApiDelete j) = (j \<noteq> i)"
| "undisturbed c i e = True"

text \<open>A list of events, each admissible in the state it meets.\<close>

fun admissible_run :: "server \<Rightarrow> event list \<Rightarrow> bool" where
  "admissible_run s [] = True"
| "admissible_run s (e # es) = (admissible s e \<and> admissible_run (state_of (step e s)) es)"

text \<open>Between two states the sockets only received more messages, and the connections, the
  function objects and their variables, the clients and the session ids stayed as they were.\<close>

definition grows :: "server \<Rightarrow> server \<Rightarrow> bool" where
  "grows s s' \<longleftrightarrow>
     clients s' = clients s \<and> (\<forall>r. session_id (heap s' r) = session_id (heap s r)) \<and>
     conns s' = conns s \<and> closures s' = closures s \<and> replaying s' = replaying s \<and>
     pendingData s' = pendingData s \<and>
     (\<forall>c. is_open (sockets s' c) = is_open (sockets s c) \<and>
          (\<exists>ms. sent (sockets s' c) = sent (sockets s c) @ ms))"

text \<open>The first resume token in a sequence of chunks: the leftmost match in the first chunk
  that has one.\<close>

fun first_token :: "string list \<Rightarrow> string option" where
  "first_token [] = None"
| "first_token (d # ds) = (case match_uuid d of None \<Rightarrow> first_token ds | Some u \<Rightarrow> Some u)"

text \<open>Example data: a disk that works, two session ids, an attach message, a server in test
  mode or not, and histories of events with the states they lead to.\<close>

definition example_env :: "nat \<Rightarrow> disk_env" where
  "example_env n =
     \<lparr>randomUUID = ''0f8fad5b-d9cb-469f-a165-70867728950e'', write_result = Written,
      rename_fails = False\<rparr>"

definition example_id :: string where
  "example_id = ''123e4567-e89b-42d3-a456-426614174000''"

definition other_id :: string where
  "other_id = ''9b2c1d3e-4f5a-4b6c-8d7e-0123456789ab''"

definition attach_msg :: "string \<Rightarrow> json" where
  "attach_msg i = JObj [(''type'', JStr ''attach''), (''sessionId'', JStr i)]"

definition example_server :: "bool \<Rightarrow> server" where
  "example_server tm = createServer tm ''/srv'' (\<lambda>ss. ''[]'') example_env Map.empty [] (\<lambda>r. True)"

definition example_history :: "event list" where
  "example_history =
     [ApiCreate example_id ''demo'' ''/tmp'' ''2026-02-04'' True, Connection, Socket 0 1 False,
      PtyData example_id ''A'', PtyData example_id ''B'', PtyData example_id ''C'']"

definition example_state :: server where
  "example_state = run example_history (example_server True)"

definition two_sessions_history :: "event list" where
  "two_sessions_history =
     [ApiCreate example_id ''one'' ''/tmp'' ''2026-02-04'' True,
      ApiCreate other_id ''two'' ''/tmp'' ''2026-02-05'' True,
      Connection, Socket 0 1 False, Message 0 (Json (attach_msg example_id))]"

definition two_sessions :: server where
  "two_sessions = run two_sessions_history (example_server True)"

definition two_viewers_history :: "event list" where
  "two_viewers_history =
     [ApiCreate example_id ''one'' ''/tmp'' ''2026-02-04'' True,
      Connection, Connection, Socket 0 1 False, Socket 1 1 False,
      Message 0 (Json (attach_msg example_id)), Message 1 (Json (attach_msg example_id)),
      Socket 0 1 True]"

definition two_viewers :: server where
  "two_viewers = run two_viewers_history (example_server True)"

definition stopped_history :: "event list" where
  "stopped_history =
     [ApiCreate example_id ''demo'' ''/tmp'' ''2026-02-04'' True, PtyExit example_id]"

definition stopped :: server where
  "stopped = run stopped_history (example_server False)"

definition attached_state :: server where
  "attached_state = run (example_history @ [Message 0 (Json (attach_msg example_id))]) (example_server True)"

definition example_chunks :: "string list" where
  "example_chunks =
     [''Welcome back'',
      ''session 123E4567-e89b-42d3-a456-426614174000 or 9b2c1d3e-4f5a-4b6c-8d7e-0123456789ab'',
      ''resume with 0f8fad5b-d9cb-469f-a165-70867728950e'']"

text \<open>Spawn options used in examples.\<close>

definition example_opts :: spawn_opts where
  "example_opts = \<lparr>opt_cwd = ''/tmp'', opt_shell = None, opt_args = None, opt_resumeId = None\<rparr>"

text \<open>
  Two states that differ at most in what the sockets hold and in the files: handlers that
  only send and persist relate a state to its successor this way.
\<close>

definition same_core :: "server \<Rightarrow> server \<Rightarrow> bool" where
  "same_core s s' \<longleftrightarrow> s' = s\<lparr>sockets := sockets s', files := files s', saves := saves s'\<rparr>"

section \<open>Ring buffer: facts\<close>

lemma trim_sum:
  "n = sum_list (map length cs) \<Longrightarrow> trim cs n = (b, k) \<Longrightarrow>
   k = sum_list (map length b) \<and> k \<le> capacity"
proof (induction cs arbitrary: n)
  case Nil
  then show ?case by simp
next
  case (Cons c cs)
  show ?case
  proof (cases "capacity < n")
    case True
    with Cons.prems have t: "trim cs (n - length c) = (b, k)" by simp
    from Cons.prems have n: "n - length c = sum_list (map length cs)" by simp
    from Cons.IH[OF n t] show ?thesis .
  next
    case False
    with Cons.prems show ?thesis by auto
  qed
qed

lemma trim_drop:
  "n = sum_list (map length cs) \<Longrightarrow> trim cs n = (b, k) \<Longrightarrow>
   \<exists>j \<le> length cs. b = drop j cs \<and> (\<forall>j' < j. capacity < sum_list (map length (drop j' cs)))"
proof (induction cs arbitrary: n)
  case Nil
  then show ?case by simp
next
  case (Cons c cs)
  show ?case
  proof (cases "capacity < n")
    case True
    with Cons.prems have t: "trim cs (n - length c) = (b, k)" by simp
    from Cons.prems have n: "n - length c = sum_list (map length cs)" by simp
    from Cons.IH[OF n t] obtain j where j: "j \<le> length cs" "b = drop j cs"
      "\<forall>j' < j. capacity < sum_list (map length (drop j' cs))" by blast
    have "capacity < sum_list (map length (drop j' (c # cs)))" if "j' < Suc j" for j'
    proof (cases j')
      case 0
      with True Cons.prems(1) show ?thesis by simp
    next
      case (Suc m)
      with that j(3) show ?thesis by simp
    qed
    with j(1,2) show ?thesis by (intro exI[of _ "Suc j"]) simp
  next
    case False
    with Cons.prems show ?thesis by (intro exI[of _ 0]) simp
  qed
qed

lemma push_size:
  assumes "bufferSize p = sum_list (map length (buffer p))"
  shows "bufferSize (pushToBuffer c p) = sum_list (map length (buffer (pushToBuffer c p)))"
    and "bufferSize (pushToBuffer c p) \<le> capacity"
proof -
  obtain b k where t: "trim (buffer p @ [c]) (bufferSize p + length c) = (b, k)"
    by (cases "trim (buffer p @ [c]) (bufferSize p + length c)")
  have n: "bufferSize p + length c = sum_list (map length (buffer p @ [c]))"
    using assms by simp
  from trim_sum[OF n t] t
  show "bufferSize (pushToBuffer c p) = sum_list (map length (buffer (pushToBuffer c p)))"
    and "bufferSize (pushToBuffer c p) \<le> capacity"
    by (simp_all add: pushToBuffer_def)
qed

lemma push_drop:
  assumes "bufferSize p = sum_list (map length (buffer p))"
  shows "\<exists>j \<le> Suc (length (buffer p)). buffer (pushToBuffer c p) = drop j (buffer p @ [c]) \<and>
     (\<forall>j' < j. capacity < sum_list (map length (drop j' (buffer p @ [c]))))"
proof -
  obtain b k where t: "trim (buffer p @ [c]) (bufferSize p + length c) = (b, k)"
    by (cases "trim (buffer p @ [c]) (bufferSize p + length c)")
  have n: "bufferSize p + length c = sum_list (map length (buffer p @ [c]))"
    using assms by simp
  from trim_drop[OF n t] t show ?thesis
    by (simp add: pushToBuffer_def)
qed

lemma appends_snoc: "appends (cs @ [c]) p = pushToBuffer c (appends cs p)"
  by (induction cs arbitrary: p) simp_all

lemma appends_size:
  "bufferSize p = sum_list (map length (buffer p)) \<Longrightarrow>
   bufferSize (appends cs p) = sum_list (map length (buffer (appends cs p)))"
  by (induction cs arbitrary: p) (simp_all add: push_size(1))

lemma new_process_size:
  "bufferSize (new_process opts r) = sum_list (map length (buffer (new_process opts r)))"
  by (simp add: new_process_def)

text \<open>
  C2. Whatever chunks have been appended to the ring buffer of a new process, after one
  more append the recorded size is at most the capacity of 1,048,576 bytes and is the
  total length of the chunks kept; the chunks kept are the old ones and the new one
  without some oldest ones, whole, and no fewer were dropped than needed: keeping any one
  more would exceed the capacity. The append is a total function: it cannot fail.
\<close>

theorem buffer_bound:
  "bufferSize (appends (cs @ [c]) (new_process opts r)) \<le> capacity \<and>
   capacity = 1048576 \<and>
   bufferSize (appends (cs @ [c]) (new_process opts r))
     = sum_list (map length (buffer (appends (cs @ [c]) (new_process opts r)))) \<and>
   (\<exists>j. buffer (appends (cs @ [c]) (new_process opts r))
           = drop j (buffer (appends cs (new_process opts r)) @ [c]) \<and>
        (\<forall>j' < j. capacity
           < sum_list (map length (drop j' (buffer (appends cs (new_process opts r)) @ [c])))))"
proof -
  let ?p = "appends cs (new_process opts r)"
  have sz: "bufferSize ?p = sum_list (map length (buffer ?p))"
    by (rule appends_size[OF new_process_size])
  from push_drop[OF sz, of c] obtain j where
    "buffer (pushToBuffer c ?p) = drop j (buffer ?p @ [c])"
    "\<forall>j' < j. capacity < sum_list (map length (drop j' (buffer ?p @ [c])))" by blast
  then show ?thesis
    using push_size[OF sz, of c] by (auto simp: appends_snoc capacity_def)
qed

theorem buffer_bound_witness:
  "bufferSize (appends ([replicate 600000 CHR ''x''] @ [replicate 600000 CHR ''y''])
       (new_process example_opts True)) = 600000 \<and>
   buffer (appends ([replicate 600000 CHR ''x''] @ [replicate 600000 CHR ''y''])
       (new_process example_opts True)) = [replicate 600000 CHR ''y'']"
  using buffer_bound[of "[replicate 600000 CHR ''x'']" "replicate 600000 CHR ''y''" example_opts True]
  by (simp add: pushToBuffer_def new_process_def capacity_def)

section \<open>Sending and persisting: facts\<close>

lemma and_then_ok [simp]: "thrown c = None \<Longrightarrow> and_then c f = f (state_of c)"
  by (cases c) simp_all

lemma lift_thrown [simp]: "thrown (lift put c) = thrown c"
  by (cases c) simp_all

lemma lift_state [simp]: "state_of (lift put c) = put (state_of c)"
  by (cases c) simp_all

lemma safeSend_ok [simp]: "thrown (safeSend ws d) = None"
  by (simp add: safeSend_def ws_send_def)

lemma safeSend_state:
  "state_of (safeSend ws d) =
     (if readyState ws = 1 \<and> \<not> send_throws ws then ws\<lparr>sent := sent ws @ [d]\<rparr> else ws)"
  by (simp add: safeSend_def ws_send_def)

lemma send_to_ok [simp]: "thrown (send_to c d s) = None"
  by (simp add: send_to_def)

lemma send_to_state:
  "state_of (send_to c d s) = s\<lparr>sockets := (sockets s)(c := state_of (safeSend (sockets s c) d))\<rparr>"
  by (simp add: send_to_def)

lemma same_core_refl [simp]: "same_core s s"
  by (simp add: same_core_def)

lemma same_core_trans: "same_core s s' \<Longrightarrow> same_core s' s'' \<Longrightarrow> same_core s s''"
  unfolding same_core_def
  by (cases s, cases s', cases s'') simp

lemma same_core_fields:
  "same_core s s' \<Longrightarrow>
     testMode s' = testMode s \<and> manager s' = manager s \<and> heap s' = heap s \<and>
     allocated s' = allocated s \<and> sessions s' = sessions s \<and> clients s' = clients s \<and>
     opened s' = opened s \<and> conns s' = conns s \<and> closures s' = closures s \<and>
     replaying s' = replaying s \<and> pendingData s' = pendingData s \<and> fresh s' = fresh s \<and>
     dirname s' = dirname s \<and> stringify s' = stringify s \<and> disk s' = disk s"
  unfolding same_core_def by (cases s, cases s') simp

lemma send_to_core: "same_core s (state_of (send_to c d s))"
  by (simp add: send_to_state same_core_def)

lemma send_each_ok [simp]: "thrown (send_each cs d s) = None"
  by (induction cs arbitrary: s) simp_all

lemma send_list_ok [simp]: "thrown (send_list c ds s) = None"
  by (induction ds arbitrary: s) simp_all

lemma send_each_core: "same_core s (state_of (send_each cs d s))"
proof (induction cs arbitrary: s)
  case Nil
  show ?case by simp
next
  case (Cons c cs)
  show ?case using same_core_trans[OF send_to_core Cons.IH] by simp
qed

lemma send_list_core: "same_core s (state_of (send_list c ds s))"
proof (induction ds arbitrary: s)
  case Nil
  show ?case by simp
next
  case (Cons d ds)
  show ?case using same_core_trans[OF send_to_core Cons.IH] by simp
qed

lemma saveSessions_ok [simp]: "thrown (saveSessions env dir strfy ss fs) = None"
  by (cases "write_result env")
     (auto simp: saveSessions_def renameSync_def unlinkSync_def split: option.splits)

lemma persist_ok [simp]: "thrown (persist s) = None"
  by (simp add: persist_def)

lemma persist_core: "same_core s (state_of (persist s))"
  by (simp add: persist_def same_core_def)

lemma broadcast_ok [simp]: "thrown (broadcastSessions s) = None"
  by (simp add: broadcastSessions_def)

lemma broadcast_core: "same_core s (state_of (broadcastSessions s))"
  by (simp add: broadcastSessions_def send_each_core)

section \<open>The process manager: facts\<close>

lemma listeners_offData [simp]:
  "listeners (offData a l m) i = (if i = a then removeAll l (listeners m i) else listeners m i)"
  by (simp add: listeners_def offData_def split: option.splits)

lemma listeners_onData [simp]:
  "listeners (onData a l m) i =
     (if i = a \<and> m a \<noteq> None \<and> l \<notin> set (listeners m a) then listeners m a @ [l] else listeners m i)"
  by (auto simp add: listeners_def onData_def split: option.splits)

lemma listeners_onExit [simp]: "listeners (onExit a cb m) i = listeners m i"
  by (simp add: listeners_def onExit_def split: option.splits)

lemma listeners_pm_resize [simp]: "listeners (pm_resize a c r m) i = listeners m i"
  by (simp add: listeners_def pm_resize_def split: option.splits)

lemma listeners_pm_write [simp]: "listeners (pm_write a d m) i = listeners m i"
  by (simp add: listeners_def pm_write_def split: option.splits)

lemma listeners_pm_exit [simp]: "listeners (fst (pm_exit a m)) i = listeners m i"
  by (simp add: listeners_def pm_exit_def split: option.splits)

lemma listeners_pm_kill [simp]: "listeners (fst (pm_kill a m)) i = listeners m i"
  by (simp add: listeners_def pm_kill_def pm_exit_def split: option.splits)

lemma pushToBuffer_dataListeners [simp]: "dataListeners (pushToBuffer d p) = dataListeners p"
  by (simp add: pushToBuffer_def split: prod.splits)

lemma pushToBuffer_exitListeners [simp]: "exitListeners (pushToBuffer d p) = exitListeners p"
  by (simp add: pushToBuffer_def split: prod.splits)

lemma pushToBuffer_alive [simp]: "alive (pushToBuffer d p) = alive p"
  by (simp add: pushToBuffer_def split: prod.splits)

lemma listeners_pm_data [simp]: "listeners (fst (pm_data a d m)) i = listeners m i"
  by (simp add: listeners_def pm_data_def split: option.splits)

lemma listeners_pm_spawn:
  "listeners (state_of (pm_spawn a opts ok m)) i =
     (if i = a \<and> \<not> isAlive a m then [] else listeners m i)"
  by (simp add: listeners_def pm_spawn_def isAlive_def new_process_def split: option.splits)

lemma callbacks_offData [simp]: "callbacks (offData a l m) i = callbacks m i"
  by (simp add: callbacks_def offData_def split: option.splits)

lemma callbacks_onData [simp]: "callbacks (onData a l m) i = callbacks m i"
  by (simp add: callbacks_def onData_def split: option.splits)

lemma callbacks_onExit [simp]:
  "callbacks (onExit a cb m) i = (if i = a \<and> m a \<noteq> None then callbacks m a @ [cb] else callbacks m i)"
  by (auto simp add: callbacks_def onExit_def split: option.splits)

lemma callbacks_pm_resize [simp]: "callbacks (pm_resize a c r m) i = callbacks m i"
  by (simp add: callbacks_def pm_resize_def split: option.splits)

lemma callbacks_pm_write [simp]: "callbacks (pm_write a d m) i = callbacks m i"
  by (simp add: callbacks_def pm_write_def split: option.splits)

lemma callbacks_pm_exit [simp]: "callbacks (fst (pm_exit a m)) i = callbacks m i"
  by (simp add: callbacks_def pm_exit_def split: option.splits)

lemma callbacks_pm_kill [simp]: "callbacks (fst (pm_kill a m)) i = callbacks m i"
  by (simp add: callbacks_def pm_kill_def pm_exit_def split: option.splits)

lemma callbacks_pm_data [simp]: "callbacks (fst (pm_data a d m)) i = callbacks m i"
  by (simp add: callbacks_def pm_data_def split: option.splits)

lemma callbacks_pm_spawn:
  "callbacks (state_of (pm_spawn a opts ok m)) i =
     (if i = a \<and> \<not> isAlive a m then [] else callbacks m i)"
  by (simp add: callbacks_def pm_spawn_def isAlive_def new_process_def split: option.splits)

lemma dom_offData [simp]: "(offData a l m i = None) = (m i = None)"
  by (simp add: offData_def split: option.splits)

lemma dom_onData [simp]: "(onData a l m i = None) = (m i = None)"
  by (simp add: onData_def split: option.splits)

lemma dom_onExit [simp]: "(onExit a cb m i = None) = (m i = None)"
  by (simp add: onExit_def split: option.splits)

lemma dom_pm_resize [simp]: "(pm_resize a c r m i = None) = (m i = None)"
  by (simp add: pm_resize_def split: option.splits)

lemma dom_pm_write [simp]: "(pm_write a d m i = None) = (m i = None)"
  by (simp add: pm_write_def split: option.splits)

lemma dom_pm_exit [simp]: "(fst (pm_exit a m) i = None) = (m i = None)"
  by (simp add: pm_exit_def split: option.splits)

lemma dom_pm_kill [simp]: "(fst (pm_kill a m) i = None) = (m i = None)"
  by (simp add: pm_kill_def pm_exit_def split: option.splits)

lemma dom_pm_data [simp]: "(fst (pm_data a d m) i = None) = (m i = None)"
  by (simp add: pm_data_def split: option.splits)

lemma dom_pm_spawn: "i \<noteq> a \<Longrightarrow> state_of (pm_spawn a opts ok m) i = m i"
  by (simp add: pm_spawn_def split: option.splits)

lemma isAlive_offData [simp]: "isAlive i (offData a l m) = isAlive i m"
  by (simp add: isAlive_def offData_def split: option.splits)

lemma isAlive_onData [simp]: "isAlive i (onData a l m) = isAlive i m"
  by (simp add: isAlive_def onData_def split: option.splits)

lemma isAlive_onExit [simp]: "isAlive i (onExit a cb m) = isAlive i m"
  by (simp add: isAlive_def onExit_def split: option.splits)

lemma isAlive_pm_resize [simp]: "isAlive i (pm_resize a c r m) = isAlive i m"
  by (simp add: isAlive_def pm_resize_def split: option.splits)

lemma isAlive_pm_write [simp]: "isAlive i (pm_write a d m) = isAlive i m"
  by (simp add: isAlive_def pm_write_def split: option.splits)

lemma isAlive_pm_data [simp]: "isAlive i (fst (pm_data a d m)) = isAlive i m"
  by (simp add: isAlive_def pm_data_def split: option.splits)

lemma isAlive_pm_exit [simp]: "isAlive i (fst (pm_exit a m)) = (i \<noteq> a \<and> isAlive i m)"
  by (auto simp add: isAlive_def pm_exit_def split: option.splits)

lemma isAlive_pm_kill [simp]: "isAlive i (fst (pm_kill a m)) = (i \<noteq> a \<and> isAlive i m)"
  by (auto simp add: isAlive_def pm_kill_def pm_exit_def split: option.splits)

lemma getBuffer_offData [simp]: "getBuffer i (offData a l m) = getBuffer i m"
  by (simp add: getBuffer_def offData_def split: option.splits)

lemma getBuffer_onData [simp]: "getBuffer i (onData a l m) = getBuffer i m"
  by (simp add: getBuffer_def onData_def split: option.splits)

lemma getBuffer_pm_resize [simp]: "getBuffer i (pm_resize a c r m) = getBuffer i m"
  by (simp add: getBuffer_def pm_resize_def split: option.splits)

section \<open>Handlers that leave the attach state alone: facts\<close>

lemmas send_to_fields [simp] = same_core_fields[OF send_to_core]
lemmas send_each_fields [simp] = same_core_fields[OF send_each_core]
lemmas send_list_fields [simp] = same_core_fields[OF send_list_core]
lemmas persist_fields [simp] = same_core_fields[OF persist_core]
lemmas broadcast_fields [simp] = same_core_fields[OF broadcast_core]

lemma evolves_refl [simp]: "evolves s s"
  by (simp add: evolves_def)

lemma evolves_trans: "evolves s s' \<Longrightarrow> evolves s' s'' \<Longrightarrow> evolves s s''"
  unfolding evolves_def
  apply (intro conjI)
                apply simp
               apply simp
              apply simp
             apply simp
            apply simp
           apply simp
          apply simp
         apply simp
        apply simp
       apply simp
      apply blast
     apply blast
    apply metis
   apply simp
  apply (metis append.assoc)
  done

lemma sockets_send_to:
  "sockets (state_of (send_to c d s)) c' =
     (if c' = c \<and> readyState (sockets s c) = 1 \<and> \<not> send_throws (sockets s c)
      then (sockets s c)\<lparr>sent := sent (sockets s c) @ [d]\<rparr> else sockets s c')"
  by (simp add: send_to_state safeSend_state)

lemma send_to_evolves: "evolves s (state_of (send_to c d s))"
  by (simp add: evolves_def sockets_send_to)

lemma send_each_evolves: "evolves s (state_of (send_each cs d s))"
proof (induction cs arbitrary: s)
  case Nil
  show ?case by simp
next
  case (Cons c cs)
  show ?case using evolves_trans[OF send_to_evolves Cons.IH] by simp
qed

lemma send_list_evolves: "evolves s (state_of (send_list c ds s))"
proof (induction ds arbitrary: s)
  case Nil
  show ?case by simp
next
  case (Cons d ds)
  show ?case using evolves_trans[OF send_to_evolves Cons.IH] by simp
qed

lemma sockets_persist [simp]: "sockets (state_of (persist s)) = sockets s"
  by (simp add: persist_def)

lemma persist_evolves: "evolves s (state_of (persist s))"
  by (simp add: evolves_def)

lemma broadcast_evolves: "evolves s (state_of (broadcastSessions s))"
  by (simp add: broadcastSessions_def send_each_evolves)

section \<open>The invariant: facts\<close>

lemma invariantI:
  assumes "manager s [] = None"
    and "\<And>r. r \<in> set (sessions s) \<Longrightarrow> session_id (heap s r) \<noteq> []"
    and "\<And>i l. l \<in> set (listeners (manager s) i) \<Longrightarrow> l < fresh s"
    and "\<And>i. distinct (listeners (manager s) i)"
    and "\<And>c. opened s \<le> c \<Longrightarrow> attachedSessionId (conns s c) = None"
    and "\<And>i l c j. l \<in> set (listeners (manager s) i) \<Longrightarrow> closures s l = DataListener c j \<Longrightarrow>
          j = i \<and> \<not> replaying s l \<and>
          attachedSessionId (conns s c) = Some i \<and> dataListener (conns s c) = Some l"
    and "\<And>c l. dataListener (conns s c) = Some l \<Longrightarrow>
          l < fresh s \<and> (\<exists>j. closures s l = DataListener c j)"
    and "\<And>i r l. CaptureCleanup r l \<in> set (callbacks (manager s) i) \<Longrightarrow>
          l < fresh s \<and> (\<exists>r'. closures s l = CaptureListener r')"
  shows "invariant s"
  unfolding invariant_def using assms by blast

lemma inv_no_empty: "invariant s \<Longrightarrow> manager s [] = None"
  by (simp add: invariant_def)

lemma inv_ids: "invariant s \<Longrightarrow> r \<in> set (sessions s) \<Longrightarrow> session_id (heap s r) \<noteq> []"
  by (simp add: invariant_def)

lemma inv_fresh: "invariant s \<Longrightarrow> l \<in> set (listeners (manager s) i) \<Longrightarrow> l < fresh s"
  unfolding invariant_def by blast

lemma inv_distinct: "invariant s \<Longrightarrow> distinct (listeners (manager s) i)"
  unfolding invariant_def by blast

lemma inv_unopened: "invariant s \<Longrightarrow> opened s \<le> c \<Longrightarrow> attachedSessionId (conns s c) = None"
  unfolding invariant_def by blast

lemma inv_listener:
  "invariant s \<Longrightarrow> l \<in> set (listeners (manager s) i) \<Longrightarrow> closures s l = DataListener c j \<Longrightarrow>
   j = i \<and> \<not> replaying s l \<and>
   attachedSessionId (conns s c) = Some i \<and> dataListener (conns s c) = Some l"
  unfolding invariant_def by blast

lemma inv_held:
  "invariant s \<Longrightarrow> dataListener (conns s c) = Some l \<Longrightarrow>
   l < fresh s \<and> (\<exists>j. closures s l = DataListener c j)"
  unfolding invariant_def by blast

lemma inv_cleanup:
  "invariant s \<Longrightarrow> CaptureCleanup r l \<in> set (callbacks (manager s) i) \<Longrightarrow>
   l < fresh s \<and> (\<exists>r'. closures s l = CaptureListener r')"
  unfolding invariant_def by blast

lemma invariant_shrink:
  assumes "invariant s"
    and "manager s' [] = None"
    and "\<And>i. set (listeners (manager s') i) \<subseteq> set (listeners (manager s) i)"
    and "\<And>i. distinct (listeners (manager s') i)"
    and "\<And>i. set (callbacks (manager s') i) \<subseteq> set (callbacks (manager s) i)"
    and "set (sessions s') \<subseteq> set (sessions s)"
    and "\<And>r. session_id (heap s' r) = session_id (heap s r)"
    and "fresh s' = fresh s" and "opened s' = opened s" and "conns s' = conns s"
    and "closures s' = closures s" and "replaying s' = replaying s"
  shows "invariant s'"
  using assms(1) unfolding invariant_def
  apply (simp only: assms(2,7-12))
  apply (intro conjI)
         apply simp
        using assms(6) apply blast
       using assms(3) apply blast
      using assms(4) apply blast
     apply blast
    using assms(3) apply blast
   apply blast
  using assms(5) apply blast
  done

lemma invariant_evolves: "invariant s \<Longrightarrow> evolves s s' \<Longrightarrow> invariant s'"
  apply (rule invariant_shrink[of s s'])
             apply assumption
            apply (simp_all add: evolves_def invariant_def)
  done

lemma invariant_sockets [simp]: "invariant (s\<lparr>sockets := w\<rparr>) = invariant s"
  by (simp add: invariant_def)

lemma invariant_heap_sessions:
  "invariant s \<Longrightarrow> \<forall>r \<in> set ss. session_id (h r) \<noteq> [] \<Longrightarrow>
   invariant (s\<lparr>heap := h, allocated := n, sessions := ss\<rparr>)"
  by (simp add: invariant_def)

lemma invariant_onExit_handler:
  assumes "invariant s"
  shows "invariant (s\<lparr>manager := onExit i (ExitHandler r) (manager s)\<rparr>)"
proof (rule invariantI)
  fix j r' l
  assume "CaptureCleanup r' l \<in> set (callbacks (manager (s\<lparr>manager := onExit i (ExitHandler r) (manager s)\<rparr>)) j)"
  then have "CaptureCleanup r' l \<in> set (callbacks (manager s) j)"
    by (simp split: if_splits)
  from inv_cleanup[OF assms this]
  show "l < fresh (s\<lparr>manager := onExit i (ExitHandler r) (manager s)\<rparr>) \<and>
        (\<exists>r'. closures (s\<lparr>manager := onExit i (ExitHandler r) (manager s)\<rparr>) l = CaptureListener r')"
    by simp
qed (use assms in \<open>simp_all add: inv_no_empty inv_ids inv_fresh inv_distinct inv_unopened inv_listener inv_held\<close>)

lemma invariant_capture:
  assumes "invariant s"
  shows "invariant (s\<lparr>closures := (closures s)(fresh s := CaptureListener r),
                      fresh := Suc (fresh s),
                      manager := onExit i (CaptureCleanup r (fresh s))
                                   (onData i (fresh s) (manager s))\<rparr>)"
    (is "invariant ?s'")
proof (rule invariantI)
  have nf: "fresh s \<notin> set (listeners (manager s) j)" for j
    using inv_fresh[OF assms, of "fresh s" j] by blast
  show "manager ?s' [] = None" using inv_no_empty[OF assms] by simp
  show "session_id (heap ?s' r') \<noteq> []" if "r' \<in> set (sessions ?s')" for r'
    using inv_ids[OF assms, of r'] that by simp
  show "l < fresh ?s'" if "l \<in> set (listeners (manager ?s') j)" for l j
    using that inv_fresh[OF assms, of l j] by (auto split: if_splits)
  show "distinct (listeners (manager ?s') j)" for j
    using inv_distinct[OF assms] nf by simp
  show "attachedSessionId (conns ?s' c) = None" if "opened ?s' \<le> c" for c
    using that inv_unopened[OF assms] by simp
  show "j = k \<and> \<not> replaying ?s' l \<and> attachedSessionId (conns ?s' c) = Some k \<and>
        dataListener (conns ?s' c) = Some l"
    if "l \<in> set (listeners (manager ?s') k)" "closures ?s' l = DataListener c j" for k l c j
  proof -
    from that(2) have ne: "l \<noteq> fresh s" by (auto split: if_splits)
    with that have "l \<in> set (listeners (manager s) k)" "closures s l = DataListener c j"
      by (auto split: if_splits)
    from inv_listener[OF assms this] show ?thesis by simp
  qed
  show "l < fresh ?s' \<and> (\<exists>j. closures ?s' l = DataListener c j)"
    if "dataListener (conns ?s' c) = Some l" for c l
    using inv_held[OF assms, of c l] that by auto
  show "l < fresh ?s' \<and> (\<exists>r'. closures ?s' l = CaptureListener r')"
    if "CaptureCleanup q l \<in> set (callbacks (manager ?s') j)" for j q l
  proof (cases "l = fresh s")
    case True
    then show ?thesis by simp
  next
    case False
    with that have "CaptureCleanup q l \<in> set (callbacks (manager s) j)"
      by (auto split: if_splits)
    from inv_cleanup[OF assms this] False show ?thesis by auto
  qed
qed

section \<open>Output and exit events: facts\<close>

lemma captureListener_ok [simp]: "thrown (captureListener l r d s) = None"
  by (simp add: captureListener_def split: option.splits)

lemma dataListener_fn_ok [simp]: "thrown (dataListener_fn l c i d s) = None"
  by (simp add: dataListener_fn_def)

lemma call_listener_ok [simp]: "thrown (call_listener l d s) = None"
  by (simp add: call_listener_def split: closure.splits)

lemma call_listeners_ok [simp]: "thrown (call_listeners ls d s) = None"
  by (induction ls arbitrary: s) simp_all

lemma offData_capture_evolves:
  assumes "closures s l = CaptureListener r"
    and "\<And>q. session_id (h q) = session_id (heap s q)"
  shows "evolves s (s\<lparr>heap := h, manager := offData a l (manager s)\<rparr>)"
  using assms by (auto simp add: evolves_def distinct_removeAll)

lemma captureListener_evolves:
  assumes "closures s l = CaptureListener r"
  shows "evolves s (state_of (captureListener l r d s))"
proof (cases "match_uuid d")
  case None
  then show ?thesis by (simp add: captureListener_def)
next
  case (Some u)
  let ?s1 = "s\<lparr>heap := (heap s)(r := (heap s r)\<lparr>claudeSessionId := Some u\<rparr>),
               manager := offData (session_id (heap s r)) l (manager s)\<rparr>"
  have 1: "evolves s ?s1"
    by (rule offData_capture_evolves[OF assms]) simp
  have 2: "evolves ?s1 (state_of (broadcastSessions (state_of (persist ?s1))))"
    by (rule evolves_trans[OF persist_evolves broadcast_evolves])
  show ?thesis
    using evolves_trans[OF 1 2] Some by (simp add: captureListener_def)
qed

lemma dataListener_fn_evolves: "evolves s (state_of (dataListener_fn l c i d s))"
  by (simp add: dataListener_fn_def send_to_evolves) (simp add: evolves_def)

lemma call_listener_evolves: "evolves s (state_of (call_listener l d s))"
  by (simp add: call_listener_def captureListener_evolves dataListener_fn_evolves
      split: closure.splits)

lemma call_listeners_evolves: "evolves s (state_of (call_listeners ls d s))"
proof (induction ls arbitrary: s)
  case Nil
  show ?case by simp
next
  case (Cons l ls)
  show ?case using evolves_trans[OF call_listener_evolves Cons.IH] by simp
qed

lemma pm_data_evolves: "evolves s (s\<lparr>manager := fst (pm_data i d (manager s))\<rparr>)"
  by (simp add: evolves_def)

lemma on_pty_data_unfold:
  "on_pty_data i d s =
     call_listeners (snd (pm_data i d (manager s))) d (s\<lparr>manager := fst (pm_data i d (manager s))\<rparr>)"
  by (simp add: on_pty_data_def split: prod.splits)

lemma on_pty_data_ok [simp]: "thrown (on_pty_data i d s) = None"
  by (simp add: on_pty_data_unfold)

lemma on_pty_data_evolves: "evolves s (state_of (on_pty_data i d s))"
  unfolding on_pty_data_unfold
  by (rule evolves_trans[OF pm_data_evolves call_listeners_evolves])

lemma call_exit_ok [simp]: "thrown (call_exit cb s) = None"
  by (cases cb) simp_all

lemma call_exits_ok [simp]: "thrown (call_exits cbs s) = None"
  by (induction cbs arbitrary: s) simp_all

lemma status_evolves:
  "evolves s (s\<lparr>heap := (heap s)(r := (heap s r)\<lparr>status := x\<rparr>)\<rparr>)"
  by (simp add: evolves_def)

lemma call_exit_evolves:
  assumes "names_capture s cb"
  shows "evolves s (state_of (call_exit cb s))"
proof (cases cb)
  case (ExitHandler r)
  let ?s1 = "s\<lparr>heap := (heap s)(r := (heap s r)\<lparr>status := ''exited''\<rparr>)\<rparr>"
  let ?s2 = "state_of (broadcastSessions (state_of (persist ?s1)))"
  have 2: "evolves ?s1 ?s2"
    by (rule evolves_trans[OF persist_evolves broadcast_evolves])
  have 3: "evolves ?s2 (state_of (send_each (clients ?s2) (Exited (session_id (heap ?s2 r))) ?s2))"
    by (rule send_each_evolves)
  show ?thesis
    using evolves_trans[OF status_evolves evolves_trans[OF 2 3]] ExitHandler by simp
next
  case (CaptureCleanup r l)
  with assms obtain r' where "closures s l = CaptureListener r'" by auto
  from offData_capture_evolves[OF this, of "heap s" "session_id (heap s r)"] CaptureCleanup
  show ?thesis by simp
qed

lemma names_capture_evolves: "evolves s s' \<Longrightarrow> names_capture s' cb = names_capture s cb"
  by (cases cb) (simp_all add: evolves_def)

lemma call_exits_evolves:
  assumes "\<forall>cb \<in> set cbs. names_capture s cb"
  shows "evolves s (state_of (call_exits cbs s))"
  using assms
proof (induction cbs arbitrary: s)
  case Nil
  show ?case by simp
next
  case (Cons cb cbs)
  have 1: "evolves s (state_of (call_exit cb s))"
    using Cons.prems by (simp add: call_exit_evolves)
  have "\<forall>cb' \<in> set cbs. names_capture (state_of (call_exit cb s)) cb'"
    using Cons.prems names_capture_evolves[OF 1] by simp
  from evolves_trans[OF 1 Cons.IH[OF this]] show ?case by simp
qed

lemma pm_exit_evolves: "evolves s (s\<lparr>manager := fst (pm_exit i (manager s))\<rparr>)"
  by (simp add: evolves_def)

lemma pm_kill_evolves: "evolves s (s\<lparr>manager := fst (pm_kill i (manager s))\<rparr>)"
  by (simp add: evolves_def)

lemma snd_pm_exit: "set (snd (pm_exit i m)) \<subseteq> set (callbacks m i)"
  by (simp add: pm_exit_def callbacks_def split: option.splits)

lemma snd_pm_kill: "set (snd (pm_kill i m)) \<subseteq> set (callbacks m i)"
  by (simp add: pm_kill_def pm_exit_def callbacks_def split: option.splits)

lemma invariant_names_capture:
  "invariant s \<Longrightarrow> cb \<in> set (callbacks (manager s) i) \<Longrightarrow> names_capture s cb"
  by (cases cb) (auto simp add: invariant_def)

lemma on_pty_exit_unfold:
  "on_pty_exit i s =
     call_exits (snd (pm_exit i (manager s))) (s\<lparr>manager := fst (pm_exit i (manager s))\<rparr>)"
  by (simp add: on_pty_exit_def split: prod.splits)

lemma kill_unfold:
  "kill i s =
     call_exits (snd (pm_kill i (manager s))) (s\<lparr>manager := fst (pm_kill i (manager s))\<rparr>)"
  by (simp add: kill_def split: prod.splits)

lemma on_pty_exit_ok [simp]: "thrown (on_pty_exit i s) = None"
  by (simp add: on_pty_exit_unfold)

lemma kill_ok [simp]: "thrown (kill i s) = None"
  by (simp add: kill_unfold)

lemma on_pty_exit_evolves:
  assumes "invariant s"
  shows "evolves s (state_of (on_pty_exit i s))"
proof -
  let ?s1 = "s\<lparr>manager := fst (pm_exit i (manager s))\<rparr>"
  have "\<forall>cb \<in> set (snd (pm_exit i (manager s))). names_capture ?s1 cb"
    using invariant_names_capture[OF assms] snd_pm_exit[of i "manager s"]
      names_capture_evolves[OF pm_exit_evolves[of s i]] by blast
  from evolves_trans[OF pm_exit_evolves call_exits_evolves[OF this]]
  show ?thesis by (simp add: on_pty_exit_unfold)
qed

lemma kill_evolves:
  assumes "invariant s"
  shows "evolves s (state_of (kill i s))"
proof -
  let ?s1 = "s\<lparr>manager := fst (pm_kill i (manager s))\<rparr>"
  have "\<forall>cb \<in> set (snd (pm_kill i (manager s))). names_capture ?s1 cb"
    using invariant_names_capture[OF assms] snd_pm_kill[of i "manager s"]
      names_capture_evolves[OF pm_kill_evolves[of s i]] by blast
  from evolves_trans[OF pm_kill_evolves call_exits_evolves[OF this]]
  show ?thesis by (simp add: kill_unfold)
qed

section \<open>The message handler: facts\<close>

lemma invariant_cong:
  assumes "manager s' = manager s" and "sessions s' = sessions s" and "heap s' = heap s"
    and "fresh s' = fresh s" and "opened s' = opened s" and "conns s' = conns s"
    and "closures s' = closures s" and "replaying s' = replaying s"
  shows "invariant s' = invariant s"
  by (simp add: invariant_def assms)

lemma invariant_resize [simp]:
  "invariant (s\<lparr>manager := pm_resize i c r (manager s)\<rparr>) = invariant s"
  by (simp add: invariant_def)

lemma invariant_write [simp]:
  "invariant (s\<lparr>manager := pm_write i d (manager s)\<rparr>) = invariant s"
  by (simp add: invariant_def)

lemma listeners_empty_id: "invariant s \<Longrightarrow> listeners (manager s) [] = []"
  by (simp add: listeners_def inv_no_empty)

lemma detach_previous_invariant:
  assumes "invariant s"
  shows "invariant (detach_previous c s)"
proof (cases "\<exists>a l. attachedSessionId (conns s c) = Some a \<and> dataListener (conns s c) = Some l \<and> a \<noteq> []")
  case False
  then have "detach_previous c s = s"
    by (auto simp add: detach_previous_def split: option.splits)
  with assms show ?thesis by simp
next
  case True
  then obtain a l where al: "attachedSessionId (conns s c) = Some a"
    "dataListener (conns s c) = Some l" "a \<noteq> []" by blast
  let ?s' = "s\<lparr>manager := offData a l (manager s),
               conns := (conns s)(c := (conns s c)\<lparr>dataListener := None\<rparr>)\<rparr>"
  have eq: "detach_previous c s = ?s'"
    using al by (simp add: detach_previous_def)
  have "invariant ?s'"
  proof (rule invariantI)
    show "manager ?s' [] = None" using inv_no_empty[OF assms] by simp
    show "session_id (heap ?s' r) \<noteq> []" if "r \<in> set (sessions ?s')" for r
      using inv_ids[OF assms, of r] that by simp
    show "l' < fresh ?s'" if "l' \<in> set (listeners (manager ?s') j)" for l' j
      using that inv_fresh[OF assms, of l' j] by (auto split: if_splits)
    show "distinct (listeners (manager ?s') j)" for j
      using inv_distinct[OF assms] by (simp add: distinct_removeAll)
    show "attachedSessionId (conns ?s' c') = None" if "opened ?s' \<le> c'" for c'
      using that inv_unopened[OF assms, of c'] by auto
    show "j = k \<and> \<not> replaying ?s' l' \<and> attachedSessionId (conns ?s' c') = Some k \<and>
          dataListener (conns ?s' c') = Some l'"
      if "l' \<in> set (listeners (manager ?s') k)" "closures ?s' l' = DataListener c' j" for k l' c' j
    proof -
      from that have in_s: "l' \<in> set (listeners (manager s) k)" "closures s l' = DataListener c' j"
        by (auto split: if_splits)
      note L = inv_listener[OF assms in_s]
      have "c' \<noteq> c"
      proof
        assume "c' = c"
        with L al have "k = a" "l' = l" by simp_all
        with that(1) show False by simp
      qed
      with L show ?thesis by simp
    qed
    show "l' < fresh ?s' \<and> (\<exists>j. closures ?s' l' = DataListener c' j)"
      if "dataListener (conns ?s' c') = Some l'" for c' l'
      using inv_held[OF assms, of c' l'] that by (auto split: if_splits)
    show "l' < fresh ?s' \<and> (\<exists>r'. closures ?s' l' = CaptureListener r')"
      if "CaptureCleanup q l' \<in> set (callbacks (manager ?s') j)" for j q l'
      using inv_cleanup[OF assms, of q l' j] that by simp
  qed
  with eq show ?thesis by simp
qed

lemma detach_previous_fields [simp]:
  "fresh (detach_previous c s) = fresh s"
  "opened (detach_previous c s) = opened s"
  "closures (detach_previous c s) = closures s"
  "replaying (detach_previous c s) = replaying s"
  "pendingData (detach_previous c s) = pendingData s"
  "sockets (detach_previous c s) = sockets s"
  "sessions (detach_previous c s) = sessions s"
  "heap (detach_previous c s) = heap s"
  "clients (detach_previous c s) = clients s"
  "testMode (detach_previous c s) = testMode s"
  "(manager (detach_previous c s) i = None) = (manager s i = None)"
  "attachedSessionId (conns (detach_previous c s) c') = attachedSessionId (conns s c')"
  "c' \<noteq> c \<Longrightarrow> conns (detach_previous c s) c' = conns s c'"
  "getBuffer i (manager (detach_previous c s)) = getBuffer i (manager s)"
  "isAlive i (manager (detach_previous c s)) = isAlive i (manager s)"
  by (simp_all add: detach_previous_def split: option.splits)

lemma detach_previous_listeners:
  "set (listeners (manager (detach_previous c s)) i) \<subseteq> set (listeners (manager s) i)"
  by (auto simp add: detach_previous_def split: option.splits)

lemma detach_previous_clear:
  assumes "invariant s" and "l \<in> set (listeners (manager (detach_previous c s)) j)"
  shows "closures s l \<noteq> DataListener c k"
proof
  assume cl: "closures s l = DataListener c k"
  from assms(2) detach_previous_listeners have in_s: "l \<in> set (listeners (manager s) j)" by blast
  from inv_listener[OF assms(1) in_s cl]
  have L: "attachedSessionId (conns s c) = Some j" "dataListener (conns s c) = Some l" by simp_all
  have "j \<noteq> []" using in_s listeners_empty_id[OF assms(1)] by auto
  with L have "manager (detach_previous c s) = offData j l (manager s)"
    by (simp add: detach_previous_def)
  with assms(2) show False by simp
qed

lemma invariant_install:
  assumes "invariant s" and "c < opened s" and "manager s i \<noteq> None"
    and "\<And>j l k. l \<in> set (listeners (manager s) j) \<Longrightarrow> closures s l \<noteq> DataListener c k"
  shows "invariant (s\<lparr>fresh := Suc (fresh s),
                      closures := (closures s)(fresh s := DataListener c i),
                      replaying := (replaying s)(fresh s := False),
                      conns := (conns s)(c := (conns s c)\<lparr>attachedSessionId := Some i,
                                                         dataListener := Some (fresh s)\<rparr>),
                      manager := onData i (fresh s) (manager s)\<rparr>)"
    (is "invariant ?s'")
proof (rule invariantI)
  have nf: "fresh s \<notin> set (listeners (manager s) j)" for j
    using inv_fresh[OF assms(1), of "fresh s" j] by blast
  show "manager ?s' [] = None" using inv_no_empty[OF assms(1)] by simp
  show "session_id (heap ?s' r') \<noteq> []" if "r' \<in> set (sessions ?s')" for r'
    using inv_ids[OF assms(1), of r'] that by simp
  show "l < fresh ?s'" if "l \<in> set (listeners (manager ?s') j)" for l j
    using that inv_fresh[OF assms(1), of l j] by (auto split: if_splits)
  show "distinct (listeners (manager ?s') j)" for j
    using inv_distinct[OF assms(1)] nf by simp
  show "attachedSessionId (conns ?s' c') = None" if "opened ?s' \<le> c'" for c'
    using that inv_unopened[OF assms(1), of c'] assms(2) by auto
  show "j = k \<and> \<not> replaying ?s' l \<and> attachedSessionId (conns ?s' c') = Some k \<and>
        dataListener (conns ?s' c') = Some l"
    if "l \<in> set (listeners (manager ?s') k)" "closures ?s' l = DataListener c' j" for k l c' j
  proof (cases "l = fresh s")
    case True
    with that nf have "k = i" by (auto split: if_splits)
    with True that(2) show ?thesis by simp
  next
    case False
    with that have in_s: "l \<in> set (listeners (manager s) k)" "closures s l = DataListener c' j"
      by (auto split: if_splits)
    with assms(4) have "c' \<noteq> c" by blast
    with inv_listener[OF assms(1) in_s] False show ?thesis by simp
  qed
  show "l < fresh ?s' \<and> (\<exists>j. closures ?s' l = DataListener c' j)"
    if "dataListener (conns ?s' c') = Some l" for c' l
    using inv_held[OF assms(1), of c' l] that by (auto split: if_splits)
  show "l < fresh ?s' \<and> (\<exists>r'. closures ?s' l = CaptureListener r')"
    if "CaptureCleanup q l \<in> set (callbacks (manager ?s') j)" for j q l
    using inv_cleanup[OF assms(1), of q l j] that by auto
qed

lemma deliver_Nil [simp]: "deliver w [] = w"
  by (simp add: deliver_def)

lemma deliver_append [simp]: "deliver (deliver w ds) es = deliver w (ds @ es)"
  by (simp add: deliver_def is_open_def)

lemma is_open_deliver [simp]: "is_open (deliver w ds) = is_open w"
  by (simp add: deliver_def is_open_def)

lemma send_to_deliver:
  "state_of (send_to c d s) = s\<lparr>sockets := (sockets s)(c := deliver (sockets s c) [d])\<rparr>"
  by (simp add: send_to_state safeSend_state deliver_def is_open_def)

lemma send_list_deliver:
  "state_of (send_list c ds s) = s\<lparr>sockets := (sockets s)(c := deliver (sockets s c) ds)\<rparr>"
proof (induction ds arbitrary: s)
  case Nil
  show ?case by simp
next
  case (Cons d ds)
  show ?case by (simp add: Cons.IH send_to_deliver cong: if_cong)
qed

lemma flush_ok [simp]: "thrown (flush c i l s) = None"
  by (simp add: flush_def)

lemma attach_ok [simp]: "thrown (attach c msg s) = None"
  by (simp add: attach_def Let_def split: option.splits prod.splits)

lemma attach_state:
  assumes "getProcess (prop_of msg ''sessionId'') (manager s) = Some (i, p)"
  shows "state_of (attach c msg s) =
     (installed c i (prop_of msg ''cols'') (prop_of msg ''rows'') s)
       \<lparr>pendingData := (pendingData s)(fresh s := []),
        sockets := (sockets s)(c := deliver (sockets s c)
           (map (Output i) (getBuffer i (manager s)) @ [Replay_done i]))\<rparr>"
  using assms
  by (simp add: attach_def Let_def flush_def send_list_deliver send_to_deliver installed_def)

lemma invariant_pendingData [simp]: "invariant (s\<lparr>pendingData := q\<rparr>) = invariant s"
  by (simp add: invariant_def)

lemma invariant_clients [simp]: "invariant (s\<lparr>clients := q\<rparr>) = invariant s"
  by (simp add: invariant_def)

lemma getProcess_Some:
  "getProcess v m = Some (i, p) \<Longrightarrow> v = Val (JStr i) \<and> m i = Some p"
  by (auto simp add: getProcess_def split: jsval.splits json.splits option.splits)

lemma installed_invariant:
  assumes "invariant s" and "c < opened s" and "manager s i \<noteq> None"
  shows "invariant (installed c i cols rows s)"
proof -
  let ?s1 = "detach_previous c s"
  let ?s3 = "?s1\<lparr>manager := (if truthy cols \<and> truthy rows
                                then pm_resize i cols rows (manager ?s1) else manager ?s1)\<rparr>"
  have i1: "invariant ?s1" by (rule detach_previous_invariant[OF assms(1)])
  have i3: "invariant ?s3" using i1 by (cases "truthy cols \<and> truthy rows") simp_all
  have o3: "c < opened ?s3" using assms(2) by simp
  have m3: "manager ?s3 i \<noteq> None" using assms(3) by (simp del: not_None_eq)
  have l3: "listeners (manager ?s3) j = listeners (manager ?s1) j" for j by simp
  have c3: "closures ?s3 l \<noteq> DataListener c k" if "l \<in> set (listeners (manager ?s3) j)" for j l k
    using detach_previous_clear[OF assms(1), of l c j k] that by (simp split: if_splits)
  from invariant_install[OF i3 o3 m3 c3]
  show ?thesis by (simp add: installed_def Let_def)
qed

lemma attach_invariant:
  assumes "invariant s" and "c < opened s"
  shows "invariant (state_of (attach c msg s))"
proof (cases "getProcess (prop_of msg ''sessionId'') (manager s)")
  case None
  with assms show ?thesis by (simp add: attach_def)
next
  case (Some ip)
  obtain i p where ip: "ip = (i, p)" by (cases ip)
  from Some ip getProcess_Some have "manager s i \<noteq> None" by fastforce
  from installed_invariant[OF assms this] attach_state[OF Some[unfolded ip]]
  show ?thesis by simp
qed

lemma on_message_ok_state:
  "state_of (on_message c raw s) =
     (case raw of
        Not_json \<Rightarrow> s
      | Json msg \<Rightarrow>
          (case get_prop msg ''type'' of
             Inl e \<Rightarrow> s
           | Inr t \<Rightarrow>
               if t = Val (JStr ''attach'') then state_of (attach c msg s)
               else if t = Val (JStr ''input'') then state_of (input c msg s)
               else if t = Val (JStr ''resize'') then state_of (resize c msg s)
               else s))"
  by (simp add: on_message_def split: payload.splits sum.splits)

lemma input_invariant: "invariant s \<Longrightarrow> invariant (state_of (input c msg s))"
  by (simp add: input_def split: option.splits)

lemma resize_invariant: "invariant s \<Longrightarrow> invariant (state_of (resize c msg s))"
  by (simp add: resize_def split: option.splits)

lemma on_message_invariant:
  "invariant s \<Longrightarrow> c < opened s \<Longrightarrow> invariant (state_of (on_message c raw s))"
  by (simp add: on_message_ok_state attach_invariant input_invariant resize_invariant
      split: payload.splits sum.splits)

lemma on_close_invariant:
  assumes "invariant s"
  shows "invariant (state_of (on_close c s))"
proof (cases "\<exists>a l. attachedSessionId (conns s c) = Some a \<and> dataListener (conns s c) = Some l \<and> a \<noteq> []")
  case False
  then have "state_of (on_close c s) = s\<lparr>clients := removeAll c (clients s)\<rparr>"
    by (auto simp add: on_close_def Let_def split: option.splits)
  with assms show ?thesis by simp
next
  case True
  then obtain a l where al: "attachedSessionId (conns s c) = Some a"
    "dataListener (conns s c) = Some l" "a \<noteq> []" by blast
  then have eq: "state_of (on_close c s) =
      s\<lparr>clients := removeAll c (clients s), manager := offData a l (manager s)\<rparr>"
    by (simp add: on_close_def Let_def)
  show ?thesis
    unfolding eq
    by (rule invariant_shrink[OF assms])
       (auto simp add: inv_no_empty[OF assms] inv_distinct[OF assms] distinct_removeAll)
qed

lemma on_connection_invariant:
  assumes "invariant s"
  shows "invariant (state_of (on_connection s))"
proof -
  let ?s' = "s\<lparr>opened := Suc (opened s),
               clients := (if opened s \<in> set (clients s) then clients s else clients s @ [opened s]),
               conns := (conns s)(opened s := \<lparr>attachedSessionId = None, dataListener = None\<rparr>)\<rparr>"
  have "invariant ?s'"
  proof (rule invariantI)
    show "manager ?s' [] = None" using inv_no_empty[OF assms] by simp
    show "session_id (heap ?s' r) \<noteq> []" if "r \<in> set (sessions ?s')" for r
      using inv_ids[OF assms, of r] that by simp
    show "l < fresh ?s'" if "l \<in> set (listeners (manager ?s') j)" for l j
      using that inv_fresh[OF assms, of l j] by simp
    show "distinct (listeners (manager ?s') j)" for j
      using inv_distinct[OF assms] by simp
    show "attachedSessionId (conns ?s' c) = None" if "opened ?s' \<le> c" for c
      using that inv_unopened[OF assms, of c] by simp
    show "j = k \<and> \<not> replaying ?s' l \<and> attachedSessionId (conns ?s' c) = Some k \<and>
          dataListener (conns ?s' c) = Some l"
      if "l \<in> set (listeners (manager ?s') k)" "closures ?s' l = DataListener c j" for k l c j
    proof -
      from that have in_s: "l \<in> set (listeners (manager s) k)" "closures s l = DataListener c j"
        by simp_all
      note L = inv_listener[OF assms in_s]
      have "c \<noteq> opened s" using L inv_unopened[OF assms, of c] by auto
      with L show ?thesis by simp
    qed
    show "l < fresh ?s' \<and> (\<exists>j. closures ?s' l = DataListener c j)"
      if "dataListener (conns ?s' c) = Some l" for c l
      using inv_held[OF assms, of c l] that by (auto split: if_splits)
    show "l < fresh ?s' \<and> (\<exists>r'. closures ?s' l = CaptureListener r')"
      if "CaptureCleanup q l \<in> set (callbacks (manager ?s') j)" for j q l
      using inv_cleanup[OF assms, of q l j] that by simp
  qed
  then show ?thesis
    by (simp add: on_connection_def Let_def send_to_deliver)
qed

section \<open>Spawning, the REST handlers, and reachability: facts\<close>

lemma pm_spawn_shrinks:
  assumes "invariant s" and "i \<noteq> []"
    and "\<And>r. session_id (h r) = session_id (heap s r)"
  shows "invariant (s\<lparr>manager := state_of (pm_spawn i opts ok (manager s)), heap := h\<rparr>)"
  by (rule invariant_shrink[OF assms(1)])
     (use assms in \<open>auto simp add: listeners_pm_spawn callbacks_pm_spawn dom_pm_spawn
        inv_no_empty inv_distinct\<close>)

lemma spawnSession_ok_state:
  "state_of (and_then c (Throw e)) = state_of c"
  by (cases c) simp_all

lemma spawnSession_invariant:
  assumes "invariant s" and "session_id (heap s r) \<noteq> []"
  shows "invariant (state_of (spawnSession r ok s))"
proof -
  let ?i = "session_id (heap s r)"
  let ?c = "pm_spawn ?i (spawnOpts (testMode s) (heap s r)) ok (manager s)"
  show ?thesis
  proof (cases ?c)
    case (Throw e m)
    then have m: "m = state_of ?c" by simp
    let ?s1 = "s\<lparr>manager := m, heap := (heap s)(r := (heap s r)\<lparr>status := ''exited''\<rparr>)\<rparr>"
    have "invariant ?s1"
      unfolding m by (rule pm_spawn_shrinks[OF assms]) simp
    then have "invariant (state_of (broadcastSessions (state_of (persist ?s1))))"
      using invariant_evolves evolves_trans[OF persist_evolves broadcast_evolves] by blast
    then show ?thesis
      using Throw by (simp add: spawnSession_def Let_def)
  next
    case (Return m)
    then have m: "m = state_of ?c" by simp
    have "invariant (s\<lparr>manager := m, heap := heap s\<rparr>)"
      unfolding m by (rule pm_spawn_shrinks[OF assms]) simp
    then have A: "invariant (s\<lparr>manager := m\<rparr>)" by simp
    have B: "invariant (s\<lparr>manager := onExit ?i (ExitHandler r) m\<rparr>)"
      using invariant_onExit_handler[OF A, where r = r and i = ?i] by simp
    show ?thesis
    proof (cases "testMode s")
      case True
      with B Return show ?thesis by (simp add: spawnSession_def Let_def)
    next
      case False
      with invariant_capture[OF B, where r = r and i = ?i] Return show ?thesis
        by (simp add: spawnSession_def Let_def)
    qed
  qed
qed

lemma in_set_remove1D: "x \<in> set (remove1 r xs) \<Longrightarrow> x \<in> set xs"
  by (metis notin_set_remove1)

lemma evolves_ids: "evolves s s' \<Longrightarrow> session_id (heap s' r) = session_id (heap s r)"
  by (simp add: evolves_def)

lemma evolves_sessions: "evolves s s' \<Longrightarrow> sessions s' = sessions s"
  by (simp add: evolves_def)

lemma spawn_then_broadcast_invariant:
  assumes "invariant s" and "session_id (heap s r) \<noteq> []"
  shows "invariant (state_of (case spawnSession r ok s of
            Throw e s' \<Rightarrow> Return s' | Return s' \<Rightarrow> broadcastSessions s'))"
proof (cases "spawnSession r ok s")
  case (Return s')
  with spawnSession_invariant[OF assms, of ok] have "invariant s'" by simp
  from invariant_evolves[OF this broadcast_evolves] Return show ?thesis by simp
next
  case (Throw e s')
  with spawnSession_invariant[OF assms, of ok] show ?thesis by simp
qed

lemma spawn_then_broadcast_ok [simp]:
  "thrown (case spawnSession r ok s of
            Throw e s' \<Rightarrow> Return s' | Return s' \<Rightarrow> broadcastSessions s') = None"
  by (cases "spawnSession r ok s") simp_all

lemma api_create_invariant:
  assumes "invariant s" and "uuid \<noteq> []"
  shows "invariant (state_of (api_create uuid name dir now ok s))"
proof -
  let ?r = "allocated s"
  let ?session = "\<lparr>session_id = uuid, session_name = name, cwd = dir, claudeSessionId = None,
                     status = ''running'', createdAt = now\<rparr>"
  let ?s1 = "s\<lparr>heap := (heap s)(?r := ?session), allocated := Suc ?r,
               sessions := sessions s @ [?r]\<rparr>"
  have "\<forall>r' \<in> set (sessions s @ [?r]). session_id (((heap s)(?r := ?session)) r') \<noteq> []"
    using inv_ids[OF assms(1)] assms(2) by auto
  from invariant_heap_sessions[OF assms(1) this]
  have i1: "invariant ?s1" .
  have i2: "invariant (state_of (persist ?s1))"
    by (rule invariant_evolves[OF i1 persist_evolves])
  have "session_id (heap (state_of (persist ?s1)) ?r) \<noteq> []"
    using assms(2) by simp
  from spawn_then_broadcast_invariant[OF i2 this]
  show ?thesis by (simp add: api_create_def Let_def)
qed

lemma api_create_ok [simp]: "thrown (api_create uuid name dir now ok s) = None"
  by (simp add: api_create_def Let_def)

lemma api_restart_invariant:
  assumes "invariant s"
  shows "invariant (state_of (api_restart i ok s))"
proof (cases "find (\<lambda>r. session_id (heap s r) = i) (sessions s)")
  case None
  with assms show ?thesis by (simp add: api_restart_def)
next
  case (Some r)
  then have r: "r \<in> set (sessions s)"
    by (auto simp add: find_Some_iff)
  let ?i = "session_id (heap s r)"
  let ?s1 = "state_of (if isAlive ?i (manager s) then kill ?i s else Return s)"
  have e1: "evolves s ?s1" using kill_evolves[OF assms] by simp
  let ?s2 = "?s1\<lparr>heap := (heap ?s1)(r := (heap ?s1 r)\<lparr>status := ''running''\<rparr>)\<rparr>"
  have e2: "evolves s (state_of (persist ?s2))"
    by (rule evolves_trans[OF e1 evolves_trans[OF status_evolves persist_evolves]])
  have i2: "invariant (state_of (persist ?s2))"
    by (rule invariant_evolves[OF assms e2])
  have "session_id (heap (state_of (persist ?s2)) r) \<noteq> []"
    using evolves_ids[OF e2, of r] inv_ids[OF assms r] by simp
  from spawn_then_broadcast_invariant[OF i2 this]
  show ?thesis using Some by (simp add: api_restart_def)
qed

lemma api_restart_ok [simp]: "thrown (api_restart i ok s) = None"
  by (simp add: api_restart_def split: option.splits)

lemma api_delete_invariant:
  assumes "invariant s"
  shows "invariant (state_of (api_delete i s))"
proof (cases "find (\<lambda>r. session_id (heap s r) = i) (sessions s)")
  case None
  with assms show ?thesis by (simp add: api_delete_def)
next
  case (Some r)
  let ?s1 = "state_of (kill (session_id (heap s r)) s)"
  have i1: "invariant ?s1" by (rule invariant_evolves[OF assms kill_evolves[OF assms]])
  let ?s2 = "?s1\<lparr>sessions := remove1 r (sessions ?s1)\<rparr>"
  have i2: "invariant ?s2"
    by (rule invariant_shrink[OF i1])
       (auto simp add: inv_no_empty[OF i1] inv_distinct[OF i1] dest: in_set_remove1D)
  have "invariant (state_of (broadcastSessions (state_of (persist ?s2))))"
    by (rule invariant_evolves[OF i2 evolves_trans[OF persist_evolves broadcast_evolves]])
  then show ?thesis using Some by (simp add: api_delete_def)
qed

lemma api_delete_ok [simp]: "thrown (api_delete i s) = None"
  by (simp add: api_delete_def split: option.splits)

lemma uuid_here_nonempty: "uuid_here u \<Longrightarrow> u \<noteq> []"
  by (auto simp add: uuid_here_def)

lemma step_invariant:
  assumes "invariant s" and "admissible s e"
  shows "invariant (state_of (step e s))"
proof (cases e)
  case Connection
  with assms show ?thesis by (simp add: on_connection_invariant)
next
  case (Message c raw)
  with assms show ?thesis by (simp add: on_message_invariant)
next
  case (Close c)
  with assms show ?thesis by (simp add: on_close_invariant)
next
  case (Socket c rs t)
  with assms show ?thesis by simp
next
  case (PtyData i d)
  with assms show ?thesis by (simp add: invariant_evolves[OF _ on_pty_data_evolves])
next
  case (PtyExit i)
  with assms show ?thesis by (simp add: invariant_evolves[OF _ on_pty_exit_evolves])
next
  case (ApiCreate uuid name dir now ok)
  with assms show ?thesis by (simp add: api_create_invariant uuid_here_nonempty)
next
  case (ApiRestart i ok)
  with assms show ?thesis by (simp add: api_restart_invariant)
next
  case (ApiDelete i)
  with assms show ?thesis by (simp add: api_delete_invariant)
qed

lemma spawnSession_ids:
  "session_id (heap (state_of (spawnSession r ok s)) q) = session_id (heap s q)"
  by (cases "pm_spawn (session_id (heap s r)) (spawnOpts (testMode s) (heap s r)) ok (manager s)")
     (simp_all add: spawnSession_def Let_def)

lemma spawnSession_sessions: "sessions (state_of (spawnSession r ok s)) = sessions s"
  by (cases "pm_spawn (session_id (heap s r)) (spawnOpts (testMode s) (heap s r)) ok (manager s)")
     (simp_all add: spawnSession_def Let_def)

lemma resume_invariant:
  assumes "invariant s" and "r \<in> set (sessions s)"
  shows "invariant (resume os_ok r s) \<and> sessions (resume os_ok r s) = sessions s"
proof (cases "status (heap s r) = ''running'' \<and>
         (case claudeSessionId (heap s r) of None \<Rightarrow> False | Some u \<Rightarrow> u \<noteq> [])")
  case False
  then have "resume os_ok r s = s" by (auto simp add: resume_def)
  with assms show ?thesis by simp
next
  case True
  have i1: "invariant (state_of (spawnSession r (os_ok r) s))"
    by (rule spawnSession_invariant[OF assms(1) inv_ids[OF assms]])
  show ?thesis
  proof (cases "spawnSession r (os_ok r) s")
    case (Return s')
    with i1 True spawnSession_sessions[of r "os_ok r" s] show ?thesis by (simp add: resume_def)
  next
    case (Throw e s')
    with i1 have "invariant s'" by simp
    from invariant_evolves[OF this status_evolves] Throw True spawnSession_sessions[of r "os_ok r" s]
    show ?thesis by (simp add: resume_def)
  qed
qed

lemma resume_all_invariant:
  "invariant s \<Longrightarrow> set rs \<subseteq> set (sessions s) \<Longrightarrow> invariant (resume_all os_ok rs s)"
proof (induction rs arbitrary: s)
  case Nil
  then show ?case by simp
next
  case (Cons r rs)
  from Cons.prems have r: "r \<in> set (sessions s)" by simp
  from resume_invariant[OF Cons.prems(1) r, of os_ok] Cons.prems(2) Cons.IH
  show ?case by simp
qed

lemma createServer_invariant:
  assumes "\<forall>x \<in> set loaded. session_id x \<noteq> []"
  shows "invariant (createServer tm dir strfy env fs loaded os_ok)"
proof (cases tm)
  case True
  then show ?thesis
    by (simp add: createServer_def invariant_def listeners_def callbacks_def)
next
  case False
  let ?s0 = "\<lparr>testMode = False, manager = Map.empty,
                heap = (\<lambda>r. if r < length loaded then loaded ! r
                             else \<lparr>session_id = [], session_name = [], cwd = [],
                                   claudeSessionId = None, status = [], createdAt = []\<rparr>),
                allocated = length loaded, sessions = [0..<length loaded], clients = [],
                opened = 0,
                sockets = (\<lambda>c. \<lparr>readyState = 0, send_throws = False, sent = []\<rparr>),
                conns = (\<lambda>c. \<lparr>attachedSessionId = None, dataListener = None\<rparr>),
                closures = (\<lambda>l. CaptureListener 0), replaying = (\<lambda>l. False),
                pendingData = (\<lambda>l. []),
                fresh = 0, files = fs, dirname = dir, stringify = strfy, disk = env, saves = 0\<rparr>"
  have "invariant ?s0"
    using assms by (simp add: invariant_def listeners_def callbacks_def)
  then have "invariant (resume_all os_ok (sessions ?s0) ?s0)"
    by (rule resume_all_invariant) simp
  from invariant_evolves[OF this persist_evolves] False
  show ?thesis by (simp add: createServer_def Let_def)
qed

lemma reachable_invariant: "reachable s \<Longrightarrow> invariant s"
  by (induction rule: reachable.induct) (simp_all add: createServer_invariant step_invariant)

section \<open>Replay and live output: facts\<close>

lemma stream_send_to:
  "stream (state_of (send_to c' d s)) c =
     (if c' = c \<and> is_open (sockets s c) \<and> stream_msg d then stream s c @ [d] else stream s c)"
  by (simp add: stream_def send_to_deliver deliver_def)

lemma stream_send_each_quiet:
  "\<not> stream_msg d \<Longrightarrow> stream (state_of (send_each cs d s)) c = stream s c"
  by (induction cs arbitrary: s) (simp_all add: stream_send_to)

lemma stream_persist [simp]: "stream (state_of (persist s)) c = stream s c"
  by (simp add: stream_def)

lemma stream_broadcast [simp]: "stream (state_of (broadcastSessions s)) c = stream s c"
  by (simp add: broadcastSessions_def sessions_msg_def stream_send_each_quiet)

lemma stream_core [simp]:
  "stream (s\<lparr>manager := m\<rparr>) c = stream s c"
  "stream (s\<lparr>heap := h\<rparr>) c = stream s c"
  "stream (s\<lparr>pendingData := q\<rparr>) c = stream s c"
  "stream (s\<lparr>sessions := ss\<rparr>) c = stream s c"
  by (simp_all add: stream_def)

lemma evolves_is_open: "evolves s s' \<Longrightarrow> is_open (sockets s' c) = is_open (sockets s c)"
  by (simp add: evolves_def is_open_def)

lemma evolves_closures: "evolves s s' \<Longrightarrow> closures s' = closures s"
  by (simp add: evolves_def)

lemma evolves_replaying: "evolves s s' \<Longrightarrow> replaying s' = replaying s"
  by (simp add: evolves_def)

lemma delta_evolves: "evolves s s' \<Longrightarrow> delta s' c d l = delta s c d l"
  by (simp add: delta_def evolves_closures evolves_is_open split: closure.splits)

lemma captureListener_stream [simp]: "stream (state_of (captureListener l r d s)) c = stream s c"
  by (simp add: captureListener_def split: option.splits)

lemma call_listener_stream:
  assumes "\<And>c' k. closures s l = DataListener c' k \<Longrightarrow> \<not> replaying s l"
  shows "stream (state_of (call_listener l d s)) c = stream s c @ delta s c d l"
  using assms
  by (auto simp add: call_listener_def delta_def dataListener_fn_def stream_send_to
      split: closure.splits)

lemma call_listeners_stream:
  assumes "\<And>l c' k. l \<in> set ls \<Longrightarrow> closures s l = DataListener c' k \<Longrightarrow> \<not> replaying s l"
  shows "stream (state_of (call_listeners ls d s)) c = stream s c @ concat (map (delta s c d) ls)"
  using assms
proof (induction ls arbitrary: s)
  case Nil
  show ?case by simp
next
  case (Cons l ls)
  let ?s1 = "state_of (call_listener l d s)"
  have ev: "evolves s ?s1" by (rule call_listener_evolves)
  have 1: "stream ?s1 c = stream s c @ delta s c d l"
    by (rule call_listener_stream) (use Cons.prems in auto)
  have "stream (state_of (call_listeners ls d ?s1)) c
          = stream ?s1 c @ concat (map (delta ?s1 c d) ls)"
    by (rule Cons.IH) (use Cons.prems in \<open>auto simp add: evolves_closures[OF ev] evolves_replaying[OF ev]\<close>)
  also have "map (delta ?s1 c d) ls = map (delta s c d) ls"
    by (simp add: delta_evolves[OF ev])
  finally show ?case using 1 by simp
qed

lemma concat_single:
  assumes "distinct xs" and "\<And>x. x \<in> set xs \<Longrightarrow> x \<noteq> a \<Longrightarrow> f x = []"
  shows "concat (map f xs) = (if a \<in> set xs then f a else [])"
  using assms by (induction xs) auto

lemma listening_iff:
  "(i, l) \<in> listening s c \<longleftrightarrow>
     l \<in> set (listeners (manager s) i) \<and> (\<exists>j. closures s l = DataListener c j)"
  by (simp add: listening_def registered_def)

lemma snd_pm_data:
  "snd (pm_data i d m) = (if isAlive i m then listeners m i else [])"
  by (simp add: pm_data_def isAlive_def listeners_def split: option.splits)

lemma on_pty_data_stream:
  assumes "invariant s"
  shows "stream (state_of (on_pty_data i d s)) c =
     stream s c @ (if isAlive i (manager s) \<and> (\<exists>l. (i, l) \<in> listening s c) \<and> is_open (sockets s c)
                   then [Output i d] else [])"
proof -
  let ?s0 = "s\<lparr>manager := fst (pm_data i d (manager s))\<rparr>"
  let ?ls = "snd (pm_data i d (manager s))"
  have sub: "set ?ls \<subseteq> set (listeners (manager s) i)" by (auto simp add: snd_pm_data)
  have nr: "\<not> replaying ?s0 l" if "l \<in> set ?ls" "closures ?s0 l = DataListener c' k" for l c' k
    using inv_listener[OF assms, of l i c' k] that sub by auto
  have st: "stream (state_of (on_pty_data i d s)) c = stream s c @ concat (map (delta ?s0 c d) ?ls)"
    unfolding on_pty_data_unfold using call_listeners_stream[of ?ls ?s0 d c] nr by simp
  show ?thesis
  proof (cases "isAlive i (manager s)")
    case False
    with st show ?thesis by (simp add: snd_pm_data)
  next
    case True
    then have ls: "?ls = listeners (manager s) i" by (simp add: snd_pm_data)
    show ?thesis
    proof (cases "\<exists>l. (i, l) \<in> listening s c")
      case False
      have "delta ?s0 c d l = []" if "l \<in> set ?ls" for l
        using that False ls by (auto simp add: delta_def listening_iff split: closure.splits)
      then have "concat (map (delta ?s0 c d) ?ls) = []" by simp
      with st False show ?thesis by simp
    next
      case yes: True
      then obtain a j where a: "a \<in> set (listeners (manager s) i)" "closures s a = DataListener c j"
        by (auto simp add: listening_iff)
      note A = inv_listener[OF assms a]
      have other: "delta ?s0 c d l = []" if "l \<in> set ?ls" "l \<noteq> a" for l
      proof (cases "closures s l")
        case (CaptureListener r)
        then show ?thesis by (simp add: delta_def)
      next
        case (DataListener c' k)
        with inv_listener[OF assms, of l i c' k] that ls A have "c' \<noteq> c" by auto
        with DataListener show ?thesis by (simp add: delta_def)
      qed
      have "distinct ?ls" using inv_distinct[OF assms] ls by simp
      from concat_single[OF this other, of a]
      have "concat (map (delta ?s0 c d) ?ls) = delta ?s0 c d a" using a ls by simp
      also have "\<dots> = (if is_open (sockets s c) then [Output i d] else [])"
        using a A by (simp add: delta_def)
      finally show ?thesis using st True yes by simp
    qed
  qed
qed

lemma steady_refl [simp]: "steady s s"
  by (simp add: steady_def)

lemma steady_trans: "steady s s' \<Longrightarrow> steady s' s'' \<Longrightarrow> steady s s''"
  by (simp add: steady_def)

lemma steady_alive: "steady s s' \<Longrightarrow> isAlive i (manager s') = isAlive i (manager s)"
  by (simp add: steady_def)

lemma steady_stream: "steady s s' \<Longrightarrow> stream s' c = stream s c"
  by (simp add: steady_def)

lemma send_each_steady: "\<not> stream_msg d \<Longrightarrow> steady s (state_of (send_each cs d s))"
  by (simp add: steady_def stream_send_each_quiet)

lemma persist_steady: "steady s (state_of (persist s))"
  by (simp add: steady_def)

lemma broadcast_steady: "steady s (state_of (broadcastSessions s))"
  by (simp add: steady_def)

lemma captureListener_steady: "steady s (state_of (captureListener l r d s))"
  by (simp add: steady_def captureListener_def split: option.splits)

lemma call_exit_steady: "steady s (state_of (call_exit cb s))"
proof (cases cb)
  case (ExitHandler r)
  let ?s1 = "s\<lparr>heap := (heap s)(r := (heap s r)\<lparr>status := ''exited''\<rparr>)\<rparr>"
  let ?s2 = "state_of (broadcastSessions (state_of (persist ?s1)))"
  have 1: "steady s ?s1" by (simp add: steady_def)
  have 2: "steady ?s1 ?s2" by (rule steady_trans[OF persist_steady broadcast_steady])
  have 3: "steady ?s2 (state_of (send_each (clients ?s2) (Exited (session_id (heap ?s2 r))) ?s2))"
    by (rule send_each_steady) simp
  from steady_trans[OF 1 steady_trans[OF 2 3]] ExitHandler show ?thesis by simp
next
  case (CaptureCleanup r l)
  then show ?thesis by (simp add: steady_def)
qed

lemma call_exits_steady: "steady s (state_of (call_exits cbs s))"
proof (induction cbs arbitrary: s)
  case Nil
  show ?case by simp
next
  case (Cons cb cbs)
  show ?case using steady_trans[OF call_exit_steady Cons.IH] by simp
qed

lemma call_listeners_alive:
  "isAlive i (manager (state_of (call_listeners ls d s))) = isAlive i (manager s)"
proof (induction ls arbitrary: s)
  case Nil
  show ?case by simp
next
  case (Cons l ls)
  have "isAlive i (manager (state_of (call_listener l d s))) = isAlive i (manager s)"
    by (simp add: call_listener_def dataListener_fn_def steady_alive[OF captureListener_steady]
        split: closure.splits)
  with Cons.IH show ?case by simp
qed

lemma on_pty_data_alive:
  "isAlive i (manager (state_of (on_pty_data j d s))) = isAlive i (manager s)"
  by (simp add: on_pty_data_unfold call_listeners_alive)

lemma kept_refl [simp]: "kept c i l s s"
  by (simp add: kept_def)

lemma kept_trans: "kept c i l s s' \<Longrightarrow> kept c i l s' s'' \<Longrightarrow> kept c i l s s''"
  by (simp add: kept_def)

lemma evolves_kept:
  "evolves s s' \<Longrightarrow> closures s l = DataListener c k \<Longrightarrow>
   isAlive i (manager s') = isAlive i (manager s) \<Longrightarrow> kept c i l s s'"
  unfolding kept_def evolves_def is_open_def by auto

lemma quiet_refl [simp]: "quiet c i l s s"
  by (simp add: quiet_def)

lemma quiet_trans: "quiet c i l s s' \<Longrightarrow> quiet c i l s' s'' \<Longrightarrow> quiet c i l s s''"
  unfolding quiet_def using kept_trans by auto

lemma evolves_quiet:
  "evolves s s' \<Longrightarrow> steady s s' \<Longrightarrow> closures s l = DataListener c k \<Longrightarrow> quiet c i l s s'"
  by (simp add: quiet_def evolves_kept steady_alive steady_stream)

lemma live_kept: "live s c i l \<Longrightarrow> kept c i l s s' \<Longrightarrow> live s' c i l"
  by (simp add: live_def kept_def)

lemma live_connected: "invariant s \<Longrightarrow> live s c i l \<Longrightarrow> c < opened s"
  using inv_unopened[of s c] by (fastforce simp add: live_def)

lemma live_created: "invariant s \<Longrightarrow> live s c i l \<Longrightarrow> l < fresh s"
  using inv_fresh[of s l i] by (simp add: live_def)

lemma live_other:
  assumes "invariant s" and "live s c i l" and "c' \<noteq> c"
  shows "dataListener (conns s c') \<noteq> Some l"
proof
  assume "dataListener (conns s c') = Some l"
  from inv_held[OF assms(1) this] assms(2,3) show False by (auto simp add: live_def)
qed

lemma on_connection_quiet:
  assumes "invariant s" and "live s c i l"
  shows "quiet c i l s (state_of (on_connection s))"
  using live_connected[OF assms]
  by (simp add: on_connection_def Let_def send_to_deliver quiet_def kept_def stream_def)

lemma detach_previous_keeps:
  "l \<in> set (listeners (manager s) i) \<Longrightarrow> dataListener (conns s c') \<noteq> Some l \<Longrightarrow>
   l \<in> set (listeners (manager (detach_previous c' s)) i)"
  by (auto simp add: detach_previous_def split: option.splits)

lemma installed_fields [simp]:
  "sockets (installed c i cols rows s) = sockets s"
  "c' \<noteq> c \<Longrightarrow> conns (installed c i cols rows s) c' = conns s c'"
  "closures (installed c i cols rows s) = (closures s)(fresh s := DataListener c i)"
  "isAlive j (manager (installed c i cols rows s)) = isAlive j (manager s)"
  "fresh (installed c i cols rows s) = Suc (fresh s)"
  by (simp_all add: installed_def Let_def)

lemma installed_listeners:
  "set (listeners (manager (installed c i cols rows s)) j) =
     set (listeners (manager (detach_previous c s)) j) \<union>
     (if j = i \<and> manager s i \<noteq> None then {fresh s} else {})"
  by (auto simp add: installed_def Let_def simp del: not_None_eq)

lemma installed_quiet:
  assumes "invariant s" and "live s c i l" and "c' \<noteq> c"
  shows "quiet c i l s (installed c' i' cols rows s)"
proof -
  have l: "l \<noteq> fresh s" using live_created[OF assms(1,2)] by simp
  have "l \<in> set (listeners (manager s) i) \<Longrightarrow> l \<in> set (listeners (manager (detach_previous c' s)) i)"
    using detach_previous_keeps live_other[OF assms] by blast
  then show ?thesis
    using l assms(3)
    by (simp add: quiet_def kept_def stream_def installed_listeners)
qed

lemma attach_quiet:
  assumes "invariant s" and "live s c i l" and "c' \<noteq> c"
  shows "quiet c i l s (state_of (attach c' msg s))"
proof (cases "getProcess (prop_of msg ''sessionId'') (manager s)")
  case None
  then show ?thesis by (simp add: attach_def)
next
  case (Some ip)
  obtain i' p where ip: "ip = (i', p)" by (cases ip)
  have "quiet c i l (installed c' i' (prop_of msg ''cols'') (prop_of msg ''rows'') s)
          (state_of (attach c' msg s))"
    using assms(3) unfolding attach_state[OF Some[unfolded ip]]
    by (simp add: quiet_def kept_def stream_def)
  from quiet_trans[OF installed_quiet[OF assms] this] show ?thesis .
qed

lemma on_message_quiet:
  assumes "invariant s" and "live s c i l" and "c' \<noteq> c"
  shows "quiet c i l s (state_of (on_message c' raw s))"
  using attach_quiet[OF assms]
  by (simp add: on_message_ok_state input_def resize_def quiet_def kept_def stream_def
      split: payload.splits sum.splits option.splits)

lemma on_close_quiet:
  assumes "invariant s" and "live s c i l" and "c' \<noteq> c"
  shows "quiet c i l s (state_of (on_close c' s))"
  using live_other[OF assms]
  by (auto simp add: on_close_def Let_def quiet_def kept_def stream_def split: option.splits)

lemma live_listening: "live s c i l \<Longrightarrow> (i, l) \<in> listening s c"
  by (auto simp add: live_def listening_iff)

lemma live_only:
  assumes "invariant s" and "live s c i l" and "(j, l') \<in> listening s c"
  shows "j = i \<and> l' = l"
proof -
  from assms(3) obtain k where "l' \<in> set (listeners (manager s) j)" "closures s l' = DataListener c k"
    by (auto simp add: listening_iff)
  from inv_listener[OF assms(1) this] assms(2) show ?thesis by (simp add: live_def)
qed

lemma on_pty_data_kept:
  assumes "live s c i l"
  shows "kept c i l s (state_of (on_pty_data j d s))"
  using evolves_kept[OF on_pty_data_evolves _ on_pty_data_alive] assms
  by (simp add: live_def)

lemma on_pty_data_live_stream:
  assumes "invariant s" and "live s c i l"
  shows "stream (state_of (on_pty_data j d s)) c = stream s c @ (if j = i then [Output i d] else [])"
proof (cases "j = i")
  case True
  with on_pty_data_stream[OF assms(1), of i d c] live_listening[OF assms(2)] assms(2)
  show ?thesis by (auto simp add: live_def)
next
  case False
  with live_only[OF assms] have "\<not> (\<exists>l'. (j, l') \<in> listening s c)" by blast
  with on_pty_data_stream[OF assms(1), of j d c] False show ?thesis by simp
qed

lemma pm_exit_steady_other:
  "j \<noteq> i \<Longrightarrow> isAlive i (fst (pm_exit j m)) = isAlive i m"
  by simp

lemma on_pty_exit_quiet:
  assumes "invariant s" and "live s c i l" and "j \<noteq> i"
  shows "quiet c i l s (state_of (on_pty_exit j s))"
proof -
  let ?s1 = "s\<lparr>manager := fst (pm_exit j (manager s))\<rparr>"
  have st: "steady ?s1 (state_of (on_pty_exit j s))"
    unfolding on_pty_exit_unfold by (rule call_exits_steady)
  have al: "isAlive i (manager (state_of (on_pty_exit j s))) = isAlive i (manager s)"
    using steady_alive[OF st, of i] assms(3) by simp
  have sm: "stream (state_of (on_pty_exit j s)) c = stream s c"
    using steady_stream[OF st, of c] by simp
  from evolves_kept[OF on_pty_exit_evolves[OF assms(1)] _ al] assms(2) sm
  show ?thesis by (simp add: quiet_def live_def)
qed

lemma kill_quiet:
  assumes "invariant s" and "live s c i l" and "j \<noteq> i"
  shows "quiet c i l s (state_of (kill j s))"
proof -
  let ?s1 = "s\<lparr>manager := fst (pm_kill j (manager s))\<rparr>"
  have st: "steady ?s1 (state_of (kill j s))"
    unfolding kill_unfold by (rule call_exits_steady)
  have al: "isAlive i (manager (state_of (kill j s))) = isAlive i (manager s)"
    using steady_alive[OF st, of i] assms(3) by simp
  have sm: "stream (state_of (kill j s)) c = stream s c"
    using steady_stream[OF st, of c] by simp
  from evolves_kept[OF kill_evolves[OF assms(1)] _ al] assms(2) sm
  show ?thesis by (simp add: quiet_def live_def)
qed

lemma isAlive_pm_spawn_other:
  "i \<noteq> a \<Longrightarrow> isAlive i (state_of (pm_spawn a opts ok m)) = isAlive i m"
  by (simp add: isAlive_def dom_pm_spawn)

lemma listeners_pm_spawn_other:
  "i \<noteq> a \<Longrightarrow> listeners (state_of (pm_spawn a opts ok m)) i = listeners m i"
  by (simp add: listeners_def dom_pm_spawn)

lemma persist_broadcast_quiet:
  "closures s l = DataListener c k \<Longrightarrow>
   quiet c i l s (state_of (broadcastSessions (state_of (persist s))))"
  by (rule evolves_quiet[OF evolves_trans[OF persist_evolves broadcast_evolves]
        steady_trans[OF persist_steady broadcast_steady]])

lemma spawnSession_quiet:
  assumes "invariant s" and "live s c i l" and "session_id (heap s r) \<noteq> i"
  shows "quiet c i l s (state_of (spawnSession r ok s))"
proof -
  let ?a = "session_id (heap s r)"
  let ?c = "pm_spawn ?a (spawnOpts (testMode s) (heap s r)) ok (manager s)"
  have l: "l \<noteq> fresh s" using live_created[OF assms(1,2)] by simp
  have cl: "closures s l = DataListener c i" using assms(2) by (simp add: live_def)
  have ne: "i \<noteq> ?a" using assms(3) by simp
  show ?thesis
  proof (cases ?c)
    case (Throw e m)
    then have m: "m = state_of ?c" by simp
    let ?s1 = "s\<lparr>manager := m, heap := (heap s)(r := (heap s r)\<lparr>status := ''exited''\<rparr>)\<rparr>"
    have 1: "quiet c i l s ?s1"
      unfolding m
      by (simp add: quiet_def kept_def stream_def isAlive_pm_spawn_other[OF ne]
          listeners_pm_spawn_other[OF ne])
    have 2: "quiet c i l ?s1 (state_of (broadcastSessions (state_of (persist ?s1))))"
      by (rule persist_broadcast_quiet) (simp add: cl)
    from quiet_trans[OF 1 2] Throw show ?thesis
      by (simp add: spawnSession_def Let_def)
  next
    case (Return m)
    then have m: "m = state_of ?c" by simp
    have lm: "listeners m i = listeners (manager s) i"
      unfolding m by (rule listeners_pm_spawn_other[OF ne])
    have am: "isAlive i m = isAlive i (manager s)"
      unfolding m by (rule isAlive_pm_spawn_other[OF ne])
    let ?s1 = "s\<lparr>manager := onExit ?a (ExitHandler r) m\<rparr>"
    have eq: "state_of (spawnSession r ok s) =
        (if testMode s then ?s1
         else ?s1\<lparr>closures := (closures ?s1)(fresh ?s1 := CaptureListener r),
                   fresh := Suc (fresh ?s1),
                   manager := onExit ?a (CaptureCleanup r (fresh ?s1))
                                (onData ?a (fresh ?s1) (manager ?s1))\<rparr>)"
      using Return by (simp add: spawnSession_def Let_def)
    show ?thesis
      unfolding eq using l ne lm am
      by (simp add: quiet_def kept_def stream_def)
  qed
qed

lemma spawn_then_broadcast_quiet:
  assumes "invariant s" and "live s c i l" and "session_id (heap s r) \<noteq> i"
  shows "quiet c i l s (state_of (case spawnSession r ok s of
            Throw e s' \<Rightarrow> Return s' | Return s' \<Rightarrow> broadcastSessions s'))"
proof (cases "spawnSession r ok s")
  case (Throw e s')
  with spawnSession_quiet[OF assms, of ok] show ?thesis by simp
next
  case (Return s')
  with spawnSession_quiet[OF assms, of ok] have q: "quiet c i l s s'" by simp
  then have "closures s' l = DataListener c i"
    using assms(2) by (simp add: quiet_def kept_def live_def)
  then have "quiet c i l s' (state_of (broadcastSessions s'))"
    by (intro evolves_quiet[OF broadcast_evolves broadcast_steady])
  from quiet_trans[OF q this] Return show ?thesis by simp
qed

lemma quiet_live: "live s c i l \<Longrightarrow> quiet c i l s s' \<Longrightarrow> live s' c i l"
  by (simp add: quiet_def live_kept)

lemma api_create_quiet:
  assumes "invariant s" and "live s c i l" and "uuid \<noteq> i" and "uuid \<noteq> []"
  shows "quiet c i l s (state_of (api_create uuid name dir now ok s))"
proof -
  let ?r = "allocated s"
  let ?session = "\<lparr>session_id = uuid, session_name = name, cwd = dir, claudeSessionId = None,
                     status = ''running'', createdAt = now\<rparr>"
  let ?s1 = "s\<lparr>heap := (heap s)(?r := ?session), allocated := Suc ?r,
               sessions := sessions s @ [?r]\<rparr>"
  let ?s2 = "state_of (persist ?s1)"
  have "\<forall>r' \<in> set (sessions s @ [?r]). session_id (((heap s)(?r := ?session)) r') \<noteq> []"
    using inv_ids[OF assms(1)] assms(4) by auto
  from invariant_heap_sessions[OF assms(1) this]
  have i1: "invariant ?s1" .
  have i2: "invariant ?s2" by (rule invariant_evolves[OF i1 persist_evolves])
  have q1: "quiet c i l s ?s1" by (simp add: quiet_def kept_def stream_def)
  have cl: "closures ?s1 l = DataListener c i" using assms(2) by (simp add: live_def)
  have q2: "quiet c i l ?s1 ?s2"
    by (rule evolves_quiet[OF persist_evolves persist_steady cl])
  have l2: "live ?s2 c i l" by (rule quiet_live[OF assms(2) quiet_trans[OF q1 q2]])
  have "session_id (heap ?s2 ?r) \<noteq> i" using assms(3) by simp
  from quiet_trans[OF quiet_trans[OF q1 q2] spawn_then_broadcast_quiet[OF i2 l2 this]]
  show ?thesis by (simp add: api_create_def Let_def)
qed

lemma api_restart_quiet:
  assumes "invariant s" and "live s c i l" and "j \<noteq> i"
  shows "quiet c i l s (state_of (api_restart j ok s))"
proof (cases "find (\<lambda>r. session_id (heap s r) = j) (sessions s)")
  case None
  then show ?thesis by (simp add: api_restart_def)
next
  case (Some r)
  let ?j = "session_id (heap s r)"
  from Some have r: "?j \<noteq> i"
    using assms(3) by (auto simp add: find_Some_iff)
  let ?s1 = "state_of (if isAlive ?j (manager s) then kill ?j s else Return s)"
  have e1: "evolves s ?s1" using kill_evolves[OF assms(1)] by simp
  have q1: "quiet c i l s ?s1" using kill_quiet[OF assms(1,2) r] by simp
  let ?s2 = "?s1\<lparr>heap := (heap ?s1)(r := (heap ?s1 r)\<lparr>status := ''running''\<rparr>)\<rparr>"
  let ?s3 = "state_of (persist ?s2)"
  have e3: "evolves s ?s3"
    by (rule evolves_trans[OF e1 evolves_trans[OF status_evolves persist_evolves]])
  have i3: "invariant ?s3" by (rule invariant_evolves[OF assms(1) e3])
  have l1: "live ?s1 c i l" by (rule quiet_live[OF assms(2) q1])
  have q2: "quiet c i l ?s1 ?s2" by (simp add: quiet_def kept_def stream_def)
  have cl: "closures ?s2 l = DataListener c i" using l1 by (simp add: live_def)
  have q3: "quiet c i l ?s2 ?s3"
    by (rule evolves_quiet[OF persist_evolves persist_steady cl])
  note q = quiet_trans[OF q1 quiet_trans[OF q2 q3]]
  have l3: "live ?s3 c i l" by (rule quiet_live[OF assms(2) q])
  have "session_id (heap ?s3 r) \<noteq> i"
    using evolves_ids[OF e3, of r] r by simp
  from quiet_trans[OF q spawn_then_broadcast_quiet[OF i3 l3 this]]
  show ?thesis using Some by (simp add: api_restart_def)
qed

lemma api_delete_quiet:
  assumes "invariant s" and "live s c i l" and "j \<noteq> i"
  shows "quiet c i l s (state_of (api_delete j s))"
proof (cases "find (\<lambda>r. session_id (heap s r) = j) (sessions s)")
  case None
  then show ?thesis by (simp add: api_delete_def)
next
  case (Some r)
  let ?j = "session_id (heap s r)"
  from Some have r: "?j \<noteq> i"
    using assms(3) by (auto simp add: find_Some_iff)
  let ?s1 = "state_of (kill ?j s)"
  have q1: "quiet c i l s ?s1" by (rule kill_quiet[OF assms(1,2) r])
  have l1: "live ?s1 c i l" by (rule quiet_live[OF assms(2) q1])
  let ?s2 = "?s1\<lparr>sessions := remove1 r (sessions ?s1)\<rparr>"
  have q2: "quiet c i l ?s1 ?s2" by (simp add: quiet_def kept_def stream_def)
  have cl: "closures ?s2 l = DataListener c i" using l1 by (simp add: live_def)
  from quiet_trans[OF q1 quiet_trans[OF q2 persist_broadcast_quiet[OF cl]]]
  show ?thesis using Some by (simp add: api_delete_def)
qed

lemma step_live:
  assumes "invariant s" and "live s c i l" and "admissible s e" and "undisturbed c i e"
  shows "kept c i l s (state_of (step e s)) \<and>
         stream (state_of (step e s)) c = stream s c @ map (Output i) (produced i [e])"
proof (cases e)
  case Connection
  with on_connection_quiet[OF assms(1,2)] show ?thesis by (simp add: quiet_def)
next
  case (Message c' raw)
  with on_message_quiet[OF assms(1,2)] assms(4) show ?thesis by (simp add: quiet_def)
next
  case (Close c')
  with on_close_quiet[OF assms(1,2)] assms(4) show ?thesis by (simp add: quiet_def)
next
  case (Socket c' rs t)
  with assms(4) show ?thesis by (simp add: kept_def stream_def)
next
  case (PtyData j d)
  with on_pty_data_kept[OF assms(2)] on_pty_data_live_stream[OF assms(1,2)]
  show ?thesis by simp
next
  case (PtyExit j)
  with on_pty_exit_quiet[OF assms(1,2)] assms(4) show ?thesis by (simp add: quiet_def)
next
  case (ApiCreate uuid name dir now ok)
  with api_create_quiet[OF assms(1,2)] assms(3,4) uuid_here_nonempty
  show ?thesis by (simp add: quiet_def)
next
  case (ApiRestart j ok)
  with api_restart_quiet[OF assms(1,2)] assms(4) show ?thesis by (simp add: quiet_def)
next
  case (ApiDelete j)
  with api_delete_quiet[OF assms(1,2)] assms(4) show ?thesis by (simp add: quiet_def)
qed

lemma produced_Cons: "produced i (e # es) = produced i [e] @ produced i es"
  by (cases e) simp_all

lemma run_live:
  assumes "invariant s" and "live s c i l" and "admissible_run s es"
    and "\<forall>e \<in> set es. undisturbed c i e"
  shows "live (run es s) c i l \<and> invariant (run es s) \<and>
         stream (run es s) c = stream s c @ map (Output i) (produced i es)"
  using assms
proof (induction es arbitrary: s)
  case Nil
  then show ?case by simp
next
  case (Cons e es)
  let ?s1 = "state_of (step e s)"
  from Cons.prems have ad: "admissible s e" "admissible_run ?s1 es"
    and un: "undisturbed c i e" "\<forall>e \<in> set es. undisturbed c i e" by simp_all
  note st = step_live[OF Cons.prems(1,2) ad(1) un(1)]
  have i1: "invariant ?s1" by (rule step_invariant[OF Cons.prems(1) ad(1)])
  have l1: "live ?s1 c i l" using live_kept[OF Cons.prems(2)] st by blast
  from Cons.IH[OF i1 l1 ad(2) un(2)] st
  show ?case by (simp add: produced_Cons[of i e es])
qed

lemma stream_outputs [simp]: "filter stream_msg (map (Output i) ds) = map (Output i) ds"
  by (induction ds) simp_all

lemma attach_message:
  "get_prop msg ''type'' = Inr (Val (JStr ''attach'')) \<Longrightarrow>
   on_message c (Json msg) s = attach c msg s"
  by (simp add: on_message_def)

lemma getProcess_found:
  "v = Val (JStr i) \<Longrightarrow> m i = Some p \<Longrightarrow> getProcess v m = Some (i, p)"
  by (simp add: getProcess_def)

lemma installed_conns:
  "conns (installed c i cols rows s) c =
     (conns (detach_previous c s) c)\<lparr>attachedSessionId := Some i, dataListener := Some (fresh s)\<rparr>"
  by (simp add: installed_def Let_def)

lemma attach_live:
  assumes "getProcess (prop_of msg ''sessionId'') (manager s) = Some (i, p)"
    and "alive p" and "is_open (sockets s c)"
  shows "live (state_of (attach c msg s)) c i (fresh s)"
proof -
  from getProcess_Some[OF assms(1)] have p: "manager s i = Some p" by simp
  then have "isAlive i (manager s)" using assms(2) by (simp add: isAlive_def)
  then show ?thesis
    using p assms(3) unfolding attach_state[OF assms(1)]
    by (simp add: live_def installed_listeners installed_conns)
qed

lemma attach_stream:
  assumes "getProcess (prop_of msg ''sessionId'') (manager s) = Some (i, p)"
    and "is_open (sockets s c)"
  shows "stream (state_of (attach c msg s)) c =
           stream s c @ map (Output i) (buffer p) @ [Replay_done i]"
proof -
  from getProcess_Some[OF assms(1)] have "getBuffer i (manager s) = buffer p"
    by (simp add: getBuffer_def)
  then show ?thesis
    using assms(2) unfolding attach_state[OF assms(1)]
    by (simp add: stream_def deliver_def)
qed

text \<open>
  C1. In a reachable state, when a connected socket that takes what is sent attaches to an
  existing session, the message handler returns normally and the connection's stream is
  extended by every chunk of the session's ring buffer, tagged with the session id and in
  buffer order, then one replay-done marker; and when the session is running, after any
  further events that leave the attachment to itself the stream is that followed by
  exactly the chunks the session produced meanwhile, each once, tagged, in order of
  arrival.
\<close>

theorem attach_replay_then_live:
  assumes "reachable s" and "c < opened s" and "is_open (sockets s c)"
    and "get_prop msg ''type'' = Inr (Val (JStr ''attach''))"
    and "prop_of msg ''sessionId'' = Val (JStr i)"
    and "manager s i = Some p"
  shows "thrown (on_message c (Json msg) s) = None \<and>
         stream (state_of (on_message c (Json msg) s)) c =
           stream s c @ map (Output i) (buffer p) @ [Replay_done i] \<and>
         (alive p \<longrightarrow>
          (\<forall>es. admissible_run (state_of (on_message c (Json msg) s)) es \<longrightarrow>
                (\<forall>e \<in> set es. undisturbed c i e) \<longrightarrow>
                stream (run es (state_of (on_message c (Json msg) s))) c =
                  stream s c @ map (Output i) (buffer p) @ [Replay_done i] @
                  map (Output i) (produced i es)))"
proof -
  let ?s1 = "state_of (on_message c (Json msg) s)"
  have inv: "invariant s" by (rule reachable_invariant[OF assms(1)])
  have gp: "getProcess (prop_of msg ''sessionId'') (manager s) = Some (i, p)"
    using assms(5,6) by (simp add: getProcess_def)
  have eq: "on_message c (Json msg) s = attach c msg s"
    by (rule attach_message[OF assms(4)])
  have st: "stream ?s1 c = stream s c @ map (Output i) (buffer p) @ [Replay_done i]"
    unfolding eq by (rule attach_stream[OF gp assms(3)])
  have i1: "invariant ?s1"
    unfolding eq by (rule attach_invariant[OF inv assms(2)])
  have "stream (run es ?s1) c =
          stream s c @ map (Output i) (buffer p) @ [Replay_done i] @ map (Output i) (produced i es)"
    if "alive p" "admissible_run ?s1 es" "\<forall>e \<in> set es. undisturbed c i e" for es
  proof -
    have "live ?s1 c i (fresh s)"
      unfolding eq by (rule attach_live[OF gp that(1) assms(3)])
    from run_live[OF i1 this that(2,3)] st show ?thesis by simp
  qed
  with st show ?thesis by (simp add: eq)
qed

lemma listening_held:
  assumes "invariant s" and "(i, l) \<in> listening s c"
  shows "attachedSessionId (conns s c) = Some i \<and> dataListener (conns s c) = Some l"
proof -
  from assms(2) obtain k where "l \<in> set (listeners (manager s) i)" "closures s l = DataListener c k"
    by (auto simp add: listening_iff)
  from inv_listener[OF assms(1) this] show ?thesis by simp
qed

lemma attach_listening:
  assumes "invariant s" and "c < opened s"
    and "getProcess (prop_of msg ''sessionId'') (manager s) = Some (b, p)"
  shows "listening (state_of (attach c msg s)) c = {(b, fresh s)}"
proof -
  let ?s1 = "state_of (attach c msg s)"
  have i1: "invariant ?s1" by (rule attach_invariant[OF assms(1,2)])
  from getProcess_Some[OF assms(3)] have p: "manager s b = Some p" by simp
  have held: "attachedSessionId (conns ?s1 c) = Some b" "dataListener (conns ?s1 c) = Some (fresh s)"
    unfolding attach_state[OF assms(3)] by (simp_all add: installed_conns)
  have "(b, fresh s) \<in> listening ?s1 c"
    using p unfolding attach_state[OF assms(3)]
    by (simp add: listening_iff installed_listeners)
  moreover have "e = (b, fresh s)" if "e \<in> listening ?s1 c" for e
  proof -
    obtain j l where e: "e = (j, l)" by (cases e)
    from listening_held[OF i1 that[unfolded e]] held e show ?thesis by simp
  qed
  ultimately show ?thesis by blast
qed

text \<open>
  C3. In every reachable state a connection's \<^verbatim>\<open>dataListener\<close> functions are registered
  in at most one place, and that is the listener the connection holds, on the session it
  is attached to. After an \<^verbatim>\<open>attach\<close> to an existing session B, whatever the connection
  was attached to before, its only registration is the new listener on B; output of any
  other session adds nothing to the connection's stream, and a chunk of B adds that chunk
  once when B is running and the socket takes what is sent.
\<close>

theorem one_listener_per_connection:
  assumes "reachable s"
  shows "(\<forall>i l. (i, l) \<in> listening s c \<longrightarrow>
            attachedSessionId (conns s c) = Some i \<and> dataListener (conns s c) = Some l) \<and>
         (\<forall>e1 \<in> listening s c. \<forall>e2 \<in> listening s c. e1 = e2) \<and>
         (c < opened s \<longrightarrow>
          get_prop msg ''type'' = Inr (Val (JStr ''attach'')) \<longrightarrow>
          prop_of msg ''sessionId'' = Val (JStr b) \<longrightarrow>
          manager s b \<noteq> None \<longrightarrow>
            listening (state_of (on_message c (Json msg) s)) c = {(b, fresh s)} \<and>
            (\<forall>a d. a \<noteq> b \<longrightarrow>
               stream (state_of (on_pty_data a d (state_of (on_message c (Json msg) s)))) c =
               stream (state_of (on_message c (Json msg) s)) c) \<and>
            (\<forall>d. stream (state_of (on_pty_data b d (state_of (on_message c (Json msg) s)))) c =
               stream (state_of (on_message c (Json msg) s)) c @
               (if isAlive b (manager s) \<and> is_open (sockets s c) then [Output b d] else [])))"
proof -
  have inv: "invariant s" by (rule reachable_invariant[OF assms])
  have held: "\<forall>i l. (i, l) \<in> listening s c \<longrightarrow>
            attachedSessionId (conns s c) = Some i \<and> dataListener (conns s c) = Some l"
    using listening_held[OF inv] by blast
  have uniq: "\<forall>e1 \<in> listening s c. \<forall>e2 \<in> listening s c. e1 = e2"
  proof (intro ballI)
    fix e1 e2 assume e: "e1 \<in> listening s c" "e2 \<in> listening s c"
    obtain i1 l1 i2 l2 where p: "e1 = (i1, l1)" "e2 = (i2, l2)" by (cases e1, cases e2)
    from listening_held[OF inv e(1)[unfolded p]] listening_held[OF inv e(2)[unfolded p]] p
    show "e1 = e2" by simp
  qed
  have att: "listening (state_of (on_message c (Json msg) s)) c = {(b, fresh s)} \<and>
            (\<forall>a d. a \<noteq> b \<longrightarrow>
               stream (state_of (on_pty_data a d (state_of (on_message c (Json msg) s)))) c =
               stream (state_of (on_message c (Json msg) s)) c) \<and>
            (\<forall>d. stream (state_of (on_pty_data b d (state_of (on_message c (Json msg) s)))) c =
               stream (state_of (on_message c (Json msg) s)) c @
               (if isAlive b (manager s) \<and> is_open (sockets s c) then [Output b d] else []))"
    if h: "c < opened s" "get_prop msg ''type'' = Inr (Val (JStr ''attach''))"
      "prop_of msg ''sessionId'' = Val (JStr b)" "manager s b \<noteq> None"
  proof -
    let ?s1 = "state_of (on_message c (Json msg) s)"
    from h(4) obtain p where p: "manager s b = Some p" by blast
    have gp: "getProcess (prop_of msg ''sessionId'') (manager s) = Some (b, p)"
      using h(3) p by (simp add: getProcess_def)
    have eq: "on_message c (Json msg) s = attach c msg s"
      by (rule attach_message[OF h(2)])
    have i1: "invariant ?s1" unfolding eq by (rule attach_invariant[OF inv h(1)])
    have li: "listening ?s1 c = {(b, fresh s)}"
      unfolding eq by (rule attach_listening[OF inv h(1) gp])
    have al: "isAlive j (manager ?s1) = isAlive j (manager s)" for j
      unfolding eq attach_state[OF gp] by simp
    have op: "is_open (sockets ?s1 c) = is_open (sockets s c)"
      unfolding eq attach_state[OF gp] by simp
    have other: "stream (state_of (on_pty_data a d ?s1)) c = stream ?s1 c" if "a \<noteq> b" for a d
      using on_pty_data_stream[OF i1, of a d c] li that by simp
    have this_one: "stream (state_of (on_pty_data b d ?s1)) c = stream ?s1 c @
               (if isAlive b (manager s) \<and> is_open (sockets s c) then [Output b d] else [])" for d
      using on_pty_data_stream[OF i1, of b d c] li al op by simp
    from li other this_one show ?thesis by blast
  qed
  from held uniq att show ?thesis by blast
qed

section \<open>Unknown ids, kill, the store, malformed messages\<close>

lemma pm_kill_dead: "\<not> isAlive i m \<Longrightarrow> pm_kill i m = (m, [])"
  by (simp add: pm_kill_def isAlive_def split: option.splits)

lemma kill_dead: "\<not> isAlive i (manager s) \<Longrightarrow> kill i s = Return s"
  by (simp add: kill_def pm_kill_dead)

lemma call_exits_alive:
  "isAlive i (manager (state_of (call_exits cbs s))) = isAlive i (manager s)"
  by (rule steady_alive[OF call_exits_steady])

lemma dead_after_kill: "\<not> isAlive i (manager (state_of (kill i s)))"
  by (simp add: kill_unfold call_exits_alive)

lemma dead_after_exit: "\<not> isAlive i (manager (state_of (on_pty_exit i s)))"
  by (simp add: on_pty_exit_unfold call_exits_alive)

text \<open>
  C5. For a running session with its exit callbacks registered, calling \<^verbatim>\<open>kill\<close> twice in a
  row, or \<^verbatim>\<open>kill\<close> after the process has exited by itself, notifies every registered exit
  callback exactly once: the notifications of both calls together are the registered
  callbacks, the second call notifies nobody and changes nothing, and the session is not
  alive afterwards. In the server, a \<^verbatim>\<open>kill\<close> after a \<^verbatim>\<open>kill\<close> or after the exit of the
  process runs no handler and leaves the whole state as it is.
\<close>

theorem kill_once:
  "(m i = Some p \<longrightarrow> alive p \<longrightarrow>
      snd (pm_kill i m) @ snd (pm_kill i (fst (pm_kill i m))) = exitListeners p \<and>
      snd (pm_exit i m) @ snd (pm_kill i (fst (pm_exit i m))) = exitListeners p \<and>
      pm_kill i (fst (pm_kill i m)) = (fst (pm_kill i m), []) \<and>
      pm_kill i (fst (pm_exit i m)) = (fst (pm_exit i m), []) \<and>
      \<not> isAlive i (fst (pm_kill i m))) \<and>
   kill i (state_of (kill i s)) = Return (state_of (kill i s)) \<and>
   kill i (state_of (on_pty_exit i s)) = Return (state_of (on_pty_exit i s))"
  by (simp add: pm_kill_def pm_exit_def isAlive_def kill_dead[OF dead_after_kill]
      kill_dead[OF dead_after_exit])

lemma attach_unknown:
  "getProcess (prop_of msg ''sessionId'') (manager s) = None \<Longrightarrow> attach c msg s = Return s"
  by (simp add: attach_def)

text \<open>
  C4. For a session id the manager does not know, \<^verbatim>\<open>write\<close>, \<^verbatim>\<open>resize\<close> and \<^verbatim>\<open>kill\<close>
  leave the manager (and \<^verbatim>\<open>kill\<close> the whole server state) unchanged and throw nothing,
  \<^verbatim>\<open>isAlive\<close> is false, \<^verbatim>\<open>getBuffer\<close> is empty, registering or unregistering a listener
  or an exit callback does nothing, and an \<^verbatim>\<open>attach\<close> message naming that id returns
  normally with the server state, and so the connection's attach state and any existing
  attachment, unchanged; so does an \<^verbatim>\<open>input\<close> or \<^verbatim>\<open>resize\<close> message of a connection
  whose attached session id is no longer known.
\<close>

theorem unknown_id_noop:
  assumes "manager s i = None"
  shows "pm_write i d (manager s) = manager s \<and>
         pm_resize i cols rows (manager s) = manager s \<and>
         pm_kill i (manager s) = (manager s, []) \<and>
         kill i s = Return s \<and>
         \<not> isAlive i (manager s) \<and>
         getBuffer i (manager s) = [] \<and>
         onData i l (manager s) = manager s \<and>
         offData i l (manager s) = manager s \<and>
         onExit i cb (manager s) = manager s \<and>
         (get_prop msg ''type'' = Inr (Val (JStr ''attach'')) \<longrightarrow>
          prop_of msg ''sessionId'' = Val (JStr i) \<longrightarrow>
          on_message c (Json msg) s = Return s) \<and>
         (attachedSessionId (conns s c) = Some i \<longrightarrow>
          get_prop msg ''type'' = Inr (Val (JStr ''input'')) \<or>
          get_prop msg ''type'' = Inr (Val (JStr ''resize'')) \<longrightarrow>
          on_message c (Json msg) s = Return s)"
  using assms
  by (auto simp add: pm_write_def pm_resize_def pm_kill_def kill_def isAlive_def getBuffer_def
      onData_def offData_def onExit_def on_message_def attach_def getProcess_def
      input_def resize_def)

lemma tmp_neq_store: "tmp_path env dir \<noteq> STORE_PATH dir"
  by (simp add: tmp_path_def)

text \<open>
  C10. \<^verbatim>\<open>saveSessions\<close> never throws. The data is written to the temporary path, which is
  not the store path, so the write leaves the store file as it was; after the call the
  temporary file is gone; the store file holds the complete new data when the write and
  the rename both succeeded and its previous contents (or still nothing) when either
  failed; no other file is touched.
\<close>

theorem saveSessions_atomic:
  "thrown (saveSessions env dir strfy ss fs) = None \<and>
   state_of (writeFileSync (write_result env) (tmp_path env dir) (strfy ss) fs) (STORE_PATH dir)
     = fs (STORE_PATH dir) \<and>
   state_of (saveSessions env dir strfy ss fs) (tmp_path env dir) = None \<and>
   (if write_result env = Written \<and> \<not> rename_fails env
    then state_of (saveSessions env dir strfy ss fs) (STORE_PATH dir) = Some (strfy ss)
    else state_of (saveSessions env dir strfy ss fs) (STORE_PATH dir) = fs (STORE_PATH dir)) \<and>
   (\<forall>p. p \<noteq> tmp_path env dir \<longrightarrow> p \<noteq> STORE_PATH dir \<longrightarrow>
        state_of (saveSessions env dir strfy ss fs) p = fs p)"
  using tmp_neq_store[of env dir]
  by (cases "write_result env")
     (auto simp: saveSessions_def renameSync_def unlinkSync_def split: option.splits)

text \<open>
  C9. The payload \<^verbatim>\<open>null\<close> is valid JSON, so the guarded \<^verbatim>\<open>JSON.parse\<close> returns; reading
  \<^verbatim>\<open>msg.type\<close> then throws a TypeError outside the guard, and the exception escapes the
  message handler. (The state is unchanged; payloads that are not JSON, and values other
  than \<^verbatim>\<open>null\<close> whose type is none of the three, are ignored: \<open>other_messages_ignored\<close>.)
\<close>

theorem null_message_throws: "on_message c (Json JNull) s = Throw TypeError s"
  by (simp add: on_message_def)

lemma other_messages_ignored:
  "on_message c Not_json s = Return s"
  "get_prop msg ''type'' = Inr t \<Longrightarrow> t \<noteq> Val (JStr ''attach'') \<Longrightarrow> t \<noteq> Val (JStr ''input'') \<Longrightarrow>
   t \<noteq> Val (JStr ''resize'') \<Longrightarrow> on_message c (Json msg) s = Return s"
  by (simp_all add: on_message_def)

section \<open>Delivery failures and exit notifications\<close>

lemma evolves_listening:
  "evolves s s' \<Longrightarrow> (j, l) \<in> listening s c \<Longrightarrow> (j, l) \<in> listening s' c"
  unfolding listening_iff evolves_def by metis

text \<open>
  C8. \<^verbatim>\<open>safeSend\<close> never throws, and when the socket's \<^verbatim>\<open>send\<close> throws, the error is
  discarded and the socket is as before. Delivering a chunk of output to the listeners of
  a session never throws, in any state of any socket; every \<^verbatim>\<open>dataListener\<close> registered
  before the delivery is still registered after it; and in a reachable state a viewer of
  the running session whose own socket takes what is sent receives the chunk, exactly
  once, whatever the sockets of the other viewers do.
\<close>

theorem send_failure_contained:
  "thrown (safeSend ws d) = None \<and>
   (send_throws ws \<longrightarrow> ws_send ws d = Throw SendError ws \<and> state_of (safeSend ws d) = ws) \<and>
   thrown (on_pty_data i chunk s) = None \<and>
   (\<forall>j l. (j, l) \<in> listening s c \<longrightarrow> (j, l) \<in> listening (state_of (on_pty_data i chunk s)) c) \<and>
   (reachable s \<longrightarrow> isAlive i (manager s) \<longrightarrow> (\<exists>l'. (i, l') \<in> listening s c') \<longrightarrow>
    is_open (sockets s c') \<longrightarrow>
      stream (state_of (on_pty_data i chunk s)) c' = stream s c' @ [Output i chunk])"
proof -
  have 1: "send_throws ws \<longrightarrow> ws_send ws d = Throw SendError ws \<and> state_of (safeSend ws d) = ws"
    by (simp add: ws_send_def safeSend_state)
  have 2: "\<forall>j l. (j, l) \<in> listening s c \<longrightarrow> (j, l) \<in> listening (state_of (on_pty_data i chunk s)) c"
    using evolves_listening[OF on_pty_data_evolves] by blast
  have 3: "stream (state_of (on_pty_data i chunk s)) c' = stream s c' @ [Output i chunk]"
    if "reachable s" "isAlive i (manager s)" "\<exists>l'. (i, l') \<in> listening s c'" "is_open (sockets s c')"
    using on_pty_data_stream[OF reachable_invariant[OF that(1)], of i chunk c'] that(2-4) by simp
  from 1 2 3 show ?thesis by simp
qed

lemma grows_refl [simp]: "grows s s"
  by (simp add: grows_def)

lemma grows_trans: "grows s s' \<Longrightarrow> grows s' s'' \<Longrightarrow> grows s s''"
  unfolding grows_def by (metis append.assoc)

lemma send_to_grows: "grows s (state_of (send_to c d s))"
  by (simp add: grows_def send_to_deliver deliver_def is_open_def)

lemma send_each_grows: "grows s (state_of (send_each cs d s))"
proof (induction cs arbitrary: s)
  case Nil
  show ?case by simp
next
  case (Cons c cs)
  show ?case using grows_trans[OF send_to_grows Cons.IH] by simp
qed

lemma persist_grows: "grows s (state_of (persist s))"
  by (simp add: grows_def)

lemma broadcast_grows: "grows s (state_of (broadcastSessions s))"
  by (simp add: broadcastSessions_def send_each_grows)

lemma send_each_delivers:
  assumes "c \<in> set cs" and "is_open (sockets s c)"
  shows "\<exists>ms. sent (sockets (state_of (send_each cs d s)) c) = sent (sockets s c) @ ms \<and> d \<in> set ms"
  using assms
proof (induction cs arbitrary: s)
  case Nil
  then show ?case by simp
next
  case (Cons a cs)
  let ?s1 = "state_of (send_to a d s)"
  have g1: "grows s ?s1" by (rule send_to_grows)
  have g2: "grows ?s1 (state_of (send_each cs d ?s1))" by (rule send_each_grows)
  show ?case
  proof (cases "a = c")
    case True
    with Cons.prems(2) have "sent (sockets ?s1 c) = sent (sockets s c) @ [d]"
      by (simp add: send_to_deliver deliver_def)
    moreover from g2 obtain ms where "sent (sockets (state_of (send_each cs d ?s1)) c)
        = sent (sockets ?s1 c) @ ms" unfolding grows_def by blast
    ultimately have "sent (sockets (state_of (send_each cs d ?s1)) c) = sent (sockets s c) @ (d # ms)"
      by simp
    then show ?thesis by (intro exI[of _ "d # ms"]) simp
  next
    case False
    with Cons.prems have c: "c \<in> set cs" by simp
    have o: "is_open (sockets ?s1 c)" using g1 Cons.prems(2) by (simp add: grows_def)
    from Cons.IH[OF c o] obtain ms where ms:
      "sent (sockets (state_of (send_each cs d ?s1)) c) = sent (sockets ?s1 c) @ ms" "d \<in> set ms"
      by blast
    from g1 obtain ms0 where "sent (sockets ?s1 c) = sent (sockets s c) @ ms0"
      unfolding grows_def by blast
    with ms show ?thesis by (intro exI[of _ "ms0 @ ms"]) simp
  qed
qed

lemma call_exit_grows: "grows s (state_of (call_exit cb s))"
proof (cases cb)
  case (ExitHandler r)
  let ?s1 = "s\<lparr>heap := (heap s)(r := (heap s r)\<lparr>status := ''exited''\<rparr>)\<rparr>"
  let ?s2 = "state_of (broadcastSessions (state_of (persist ?s1)))"
  have 1: "grows s ?s1" by (simp add: grows_def)
  have 2: "grows ?s1 ?s2" by (rule grows_trans[OF persist_grows broadcast_grows])
  have 3: "grows ?s2 (state_of (send_each (clients ?s2) (Exited (session_id (heap ?s2 r))) ?s2))"
    by (rule send_each_grows)
  from grows_trans[OF 1 grows_trans[OF 2 3]] ExitHandler show ?thesis by simp
next
  case (CaptureCleanup r l)
  then show ?thesis by (simp add: grows_def)
qed

lemma call_exits_grows: "grows s (state_of (call_exits cbs s))"
proof (induction cbs arbitrary: s)
  case Nil
  show ?case by simp
next
  case (Cons cb cbs)
  show ?case using grows_trans[OF call_exit_grows Cons.IH] by simp
qed

lemma call_exit_notifies:
  assumes "c \<in> set (clients s)" and "is_open (sockets s c)"
  shows "\<exists>ms. sent (sockets (state_of (call_exit (ExitHandler r) s)) c) = sent (sockets s c) @ ms \<and>
              Exited (session_id (heap s r)) \<in> set ms"
proof -
  let ?s1 = "s\<lparr>heap := (heap s)(r := (heap s r)\<lparr>status := ''exited''\<rparr>)\<rparr>"
  let ?s2 = "state_of (broadcastSessions (state_of (persist ?s1)))"
  have 1: "grows s ?s1" by (simp add: grows_def)
  have 2: "grows ?s1 ?s2" by (rule grows_trans[OF persist_grows broadcast_grows])
  note g = grows_trans[OF 1 2]
  have c2: "c \<in> set (clients ?s2)" "is_open (sockets ?s2 c)"
    "session_id (heap ?s2 r) = session_id (heap s r)"
    using g assms by (simp_all add: grows_def)
  from send_each_delivers[OF c2(1,2), of "Exited (session_id (heap ?s2 r))"] c2(3)
  obtain ms where ms: "sent (sockets (state_of (send_each (clients ?s2)
      (Exited (session_id (heap ?s2 r))) ?s2)) c) = sent (sockets ?s2 c) @ ms"
    "Exited (session_id (heap s r)) \<in> set ms" by auto
  from g obtain ms0 where "sent (sockets ?s2 c) = sent (sockets s c) @ ms0"
    unfolding grows_def by blast
  with ms show ?thesis by (intro exI[of _ "ms0 @ ms"]) simp
qed

lemma call_exits_notifies:
  assumes "ExitHandler r \<in> set cbs" and "c \<in> set (clients s)" and "is_open (sockets s c)"
  shows "\<exists>ms. sent (sockets (state_of (call_exits cbs s)) c) = sent (sockets s c) @ ms \<and>
              Exited (session_id (heap s r)) \<in> set ms"
  using assms
proof (induction cbs arbitrary: s)
  case Nil
  then show ?case by simp
next
  case (Cons cb cbs)
  let ?s1 = "state_of (call_exit cb s)"
  have g1: "grows s ?s1" by (rule call_exit_grows)
  have g2: "grows ?s1 (state_of (call_exits cbs ?s1))" by (rule call_exits_grows)
  show ?case
  proof (cases "cb = ExitHandler r")
    case True
    from call_exit_notifies[OF Cons.prems(2,3), of r] True obtain ms where
      ms: "sent (sockets ?s1 c) = sent (sockets s c) @ ms" "Exited (session_id (heap s r)) \<in> set ms"
      by auto
    from g2 obtain ms' where "sent (sockets (state_of (call_exits cbs ?s1)) c)
        = sent (sockets ?s1 c) @ ms'" unfolding grows_def by blast
    with ms show ?thesis by (intro exI[of _ "ms @ ms'"]) simp
  next
    case False
    with Cons.prems(1) have r: "ExitHandler r \<in> set cbs" by simp
    have c1: "c \<in> set (clients ?s1)" "is_open (sockets ?s1 c)"
      "session_id (heap ?s1 r) = session_id (heap s r)"
      using g1 Cons.prems(2,3) by (simp_all add: grows_def)
    from Cons.IH[OF r c1(1,2)] c1(3) obtain ms where
      ms: "sent (sockets (state_of (call_exits cbs ?s1)) c) = sent (sockets ?s1 c) @ ms"
      "Exited (session_id (heap s r)) \<in> set ms" by auto
    from g1 obtain ms0 where "sent (sockets ?s1 c) = sent (sockets s c) @ ms0"
      unfolding grows_def by blast
    with ms show ?thesis by (intro exI[of _ "ms0 @ ms"]) simp
  qed
qed

lemma snd_pm_exit_alive:
  "m i = Some p \<Longrightarrow> alive p \<Longrightarrow> snd (pm_exit i m) = exitListeners p"
  by (simp add: pm_exit_def)

text \<open>
  C7. When the process of a session exits, the exit notification never throws and leaves
  every connection's \<^verbatim>\<open>attachedSessionId\<close> and \<^verbatim>\<open>dataListener\<close>, the listener function
  objects and their \<^verbatim>\<open>replaying\<close> and \<^verbatim>\<open>pendingData\<close> as they were; in a reachable state
  every \<^verbatim>\<open>dataListener\<close> that was registered stays registered; and for the exit handler
  \<^verbatim>\<open>spawnSession\<close> registered for a session object, every client whose socket takes what
  is sent receives the event \<^verbatim>\<open>exited\<close> with that session's id.
\<close>

theorem exit_keeps_attachment:
  "thrown (on_pty_exit i s) = None \<and>
   conns (state_of (on_pty_exit i s)) = conns s \<and>
   closures (state_of (on_pty_exit i s)) = closures s \<and>
   replaying (state_of (on_pty_exit i s)) = replaying s \<and>
   pendingData (state_of (on_pty_exit i s)) = pendingData s \<and>
   (reachable s \<longrightarrow>
      (\<forall>c j l. (j, l) \<in> listening s c \<longrightarrow> (j, l) \<in> listening (state_of (on_pty_exit i s)) c)) \<and>
   (manager s i = Some p \<longrightarrow> alive p \<longrightarrow> ExitHandler r \<in> set (exitListeners p) \<longrightarrow>
    c \<in> set (clients s) \<longrightarrow> is_open (sockets s c) \<longrightarrow>
      (\<exists>ms. sent (sockets (state_of (on_pty_exit i s)) c) = sent (sockets s c) @ ms \<and>
            Exited (session_id (heap s r)) \<in> set ms))"
proof -
  let ?s0 = "s\<lparr>manager := fst (pm_exit i (manager s))\<rparr>"
  have g: "grows ?s0 (state_of (on_pty_exit i s))"
    unfolding on_pty_exit_unfold by (rule call_exits_grows)
  have frame: "conns (state_of (on_pty_exit i s)) = conns s \<and>
     closures (state_of (on_pty_exit i s)) = closures s \<and>
     replaying (state_of (on_pty_exit i s)) = replaying s \<and>
     pendingData (state_of (on_pty_exit i s)) = pendingData s"
    using g by (simp add: grows_def)
  have keep: "\<forall>c j l. (j, l) \<in> listening s c \<longrightarrow> (j, l) \<in> listening (state_of (on_pty_exit i s)) c"
    if "reachable s"
    using evolves_listening[OF on_pty_exit_evolves[OF reachable_invariant[OF that]]] by blast
  have told: "\<exists>ms. sent (sockets (state_of (on_pty_exit i s)) c) = sent (sockets s c) @ ms \<and>
            Exited (session_id (heap s r)) \<in> set ms"
    if "manager s i = Some p" "alive p" "ExitHandler r \<in> set (exitListeners p)"
      "c \<in> set (clients s)" "is_open (sockets s c)"
  proof -
    have "ExitHandler r \<in> set (snd (pm_exit i (manager s)))"
      using snd_pm_exit_alive[of "manager s" i p] that(1,2,3) by simp
    from call_exits_notifies[OF this, of c ?s0] that(4,5)
    show ?thesis by (simp add: on_pty_exit_unfold)
  qed
  from frame keep told show ?thesis by simp
qed

section \<open>Resume token capture\<close>

lemma saves_send_to [simp]: "saves (state_of (send_to c d s)) = saves s"
  by (simp add: send_to_deliver)

lemma saves_send_each [simp]: "saves (state_of (send_each cs d s)) = saves s"
  by (induction cs arbitrary: s) simp_all

lemma saves_broadcast [simp]: "saves (state_of (broadcastSessions s)) = saves s"
  by (simp add: broadcastSessions_def)

lemma saves_persist [simp]:
  "saves (state_of (persist s)) = (if testMode s then saves s else Suc (saves s))"
  by (simp add: persist_def)

lemma match_uuid_leftmost:
  "match_uuid d = Some u \<Longrightarrow>
   \<exists>k. u = take 36 (drop k d) \<and> uuid_here (drop k d) \<and> (\<forall>k' < k. \<not> uuid_here (drop k' d))"
proof (induction d)
  case Nil
  then show ?case by simp
next
  case (Cons a d)
  show ?case
  proof (cases "uuid_here (a # d)")
    case True
    with Cons.prems have "u = take 36 (a # d)" by simp
    with True show ?thesis by (intro exI[of _ 0]) simp
  next
    case False
    with Cons.prems have "match_uuid d = Some u" by simp
    from Cons.IH[OF this] obtain k where k: "u = take 36 (drop k d)" "uuid_here (drop k d)"
      "\<forall>k' < k. \<not> uuid_here (drop k' d)" by blast
    have "\<not> uuid_here (drop k' (a # d))" if "k' < Suc k" for k'
      using that False k(3) by (cases k') simp_all
    with k(1,2) show ?thesis by (intro exI[of _ "Suc k"]) simp
  qed
qed

lemma spawn_capture:
  assumes "\<not> testMode s" and "\<not> isAlive (session_id (heap s r)) (manager s)"
  shows "thrown (spawnSession r True s) = None"
    and "listeners (manager (state_of (spawnSession r True s))) (session_id (heap s r)) = [fresh s]"
    and "isAlive (session_id (heap s r)) (manager (state_of (spawnSession r True s)))"
    and "closures (state_of (spawnSession r True s)) (fresh s) = CaptureListener r"
    and "heap (state_of (spawnSession r True s)) = heap s"
    and "saves (state_of (spawnSession r True s)) = saves s"
    and "\<not> testMode (state_of (spawnSession r True s))"
  using assms
  by (auto simp add: spawnSession_def Let_def pm_spawn_def isAlive_def new_process_def
      listeners_def onExit_def onData_def split: option.splits)

lemma capture_step:
  assumes "\<not> testMode s" and "closures s lc = CaptureListener r"
    and "session_id (heap s r) = i" and "isAlive i (manager s)"
    and "listeners (manager s) i = (if armed then [lc] else [])"
  shows "\<not> testMode (state_of (on_pty_data i d s)) \<and>
         closures (state_of (on_pty_data i d s)) lc = CaptureListener r \<and>
         session_id (heap (state_of (on_pty_data i d s)) r) = i \<and>
         isAlive i (manager (state_of (on_pty_data i d s))) \<and>
         listeners (manager (state_of (on_pty_data i d s))) i
           = (if armed \<and> match_uuid d = None then [lc] else []) \<and>
         claudeSessionId (heap (state_of (on_pty_data i d s)) r)
           = (if armed then (case match_uuid d of None \<Rightarrow> claudeSessionId (heap s r) | Some u \<Rightarrow> Some u)
              else claudeSessionId (heap s r)) \<and>
         saves (state_of (on_pty_data i d s))
           = saves s + (if armed \<and> match_uuid d \<noteq> None then 1 else 0)"
  using assms
  by (cases armed; cases "match_uuid d")
     (simp_all add: on_pty_data_unfold snd_pm_data call_listener_def captureListener_def)

lemma capture_run:
  assumes "\<not> testMode s" and "closures s lc = CaptureListener r"
    and "session_id (heap s r) = i" and "isAlive i (manager s)"
    and "listeners (manager s) i = (if armed then [lc] else [])"
  shows "listeners (manager (run (map (PtyData i) ds) s)) i
           = (if armed \<and> first_token ds = None then [lc] else []) \<and>
         claudeSessionId (heap (run (map (PtyData i) ds) s) r)
           = (if armed then (case first_token ds of None \<Rightarrow> claudeSessionId (heap s r) | Some u \<Rightarrow> Some u)
              else claudeSessionId (heap s r)) \<and>
         saves (run (map (PtyData i) ds) s)
           = saves s + (if armed \<and> first_token ds \<noteq> None then 1 else 0)"
  using assms
proof (induction ds arbitrary: s armed)
  case Nil
  then show ?case by simp
next
  case (Cons d ds)
  let ?s1 = "state_of (on_pty_data i d s)"
  note st = capture_step[OF Cons.prems, of d]
  from st have p: "\<not> testMode ?s1" "closures ?s1 lc = CaptureListener r"
    "session_id (heap ?s1 r) = i" "isAlive i (manager ?s1)"
    "listeners (manager ?s1) i = (if armed \<and> match_uuid d = None then [lc] else [])"
    by simp_all
  from Cons.IH[OF p] st show ?case
    by (cases armed; cases "match_uuid d") (auto split: option.splits)
qed

text \<open>
  C6. Outside test mode, spawning a session registers one capture listener. Whatever
  chunks the session then produces, the session's \<^verbatim>\<open>claudeSessionId\<close> ends as the
  leftmost match in the first chunk that has a match (and stays as it was if none has);
  the capture effect, counted by the calls of \<^verbatim>\<open>saveSessions\<close>, happens once if a chunk
  has a match and never otherwise; and the capture listener is registered afterwards
  exactly if no chunk had a match. The match reported for a chunk is its leftmost one.
\<close>

theorem capture_once:
  assumes "\<not> testMode s" and "\<not> isAlive (session_id (heap s r)) (manager s)"
  shows "thrown (spawnSession r True s) = None \<and>
         registered (state_of (spawnSession r True s)) (session_id (heap s r)) (fresh s) \<and>
         closures (state_of (spawnSession r True s)) (fresh s) = CaptureListener r \<and>
         claudeSessionId (heap (run (map (PtyData (session_id (heap s r))) ds)
             (state_of (spawnSession r True s))) r)
           = (case first_token ds of None \<Rightarrow> claudeSessionId (heap s r) | Some u \<Rightarrow> Some u) \<and>
         saves (run (map (PtyData (session_id (heap s r))) ds) (state_of (spawnSession r True s)))
           = saves s + (if first_token ds = None then 0 else 1) \<and>
         registered (run (map (PtyData (session_id (heap s r))) ds) (state_of (spawnSession r True s)))
             (session_id (heap s r)) (fresh s)
           = (first_token ds = None) \<and>
         (\<forall>d u. match_uuid d = Some u \<longrightarrow>
            (\<exists>k. u = take 36 (drop k d) \<and> uuid_here (drop k d) \<and>
                 (\<forall>k' < k. \<not> uuid_here (drop k' d))))"
proof -
  let ?i = "session_id (heap s r)"
  let ?s1 = "state_of (spawnSession r True s)"
  note sp = spawn_capture[OF assms]
  have l: "listeners (manager ?s1) ?i = (if True then [fresh s] else [])"
    using sp(2) by simp
  have id: "session_id (heap ?s1 r) = ?i" using sp(5) by simp
  from capture_run[OF sp(7) sp(4) id sp(3) l, of ds] sp match_uuid_leftmost
  show ?thesis by (auto simp add: registered_def)
qed

section \<open>Examples\<close>

lemmas eval_defs =
  createServer_def api_create_def api_restart_def api_delete_def Let_def persist_def
  spawnSession_def pm_spawn_def spawnOpts_def new_process_def onExit_def onData_def offData_def
  broadcastSessions_def sessions_msg_def isAlive_def on_connection_def send_to_def safeSend_def
  ws_send_def on_pty_data_def pm_data_def pushToBuffer_def capacity_def call_listener_def
  dataListener_fn_def captureListener_def on_message_def attach_def detach_previous_def
  getProcess_def prop_of_def getBuffer_def flush_def pm_resize_def pm_write_def input_def
  resize_def on_close_def on_pty_exit_def pm_exit_def pm_kill_def kill_def is_open_def stream_def
  example_server_def example_env_def example_id_def other_id_def attach_msg_def
  saveSessions_def tmp_path_def STORE_PATH_def renameSync_def unlinkSync_def

lemma uuid_example: "uuid_here example_id \<and> length example_id = 36"
  by (simp add: example_id_def uuid_here_def hex_group_def hex_digit_def)

lemma uuid_other: "uuid_here other_id \<and> length other_id = 36"
  by (simp add: other_id_def uuid_here_def hex_group_def hex_digit_def)

lemma reachable_run: "reachable s \<Longrightarrow> admissible_run s es \<Longrightarrow> reachable (run es s)"
  by (induction es arbitrary: s) (simp_all add: reachable.after)

lemma reachable_example: "reachable example_state"
  unfolding example_state_def example_server_def
  by (rule reachable_run[OF reachable.start])
     (simp_all add: example_history_def uuid_example)

lemma reachable_two_sessions: "reachable two_sessions"
  unfolding two_sessions_def example_server_def
  by (rule reachable_run[OF reachable.start])
     (simp_all add: two_sessions_history_def uuid_example uuid_other api_create_def Let_def
        on_connection_def send_to_deliver createServer_def persist_def)

lemma reachable_two_viewers: "reachable two_viewers"
  unfolding two_viewers_def example_server_def
  by (rule reachable_run[OF reachable.start])
     (simp_all add: two_viewers_history_def eval_defs uuid_here_def hex_group_def hex_digit_def)

theorem attach_replay_then_live_witness:
  "reachable example_state \<and> 0 < opened example_state \<and> is_open (sockets example_state 0) \<and>
   stream example_state 0 = [] \<and>
   stream (run [PtyData example_id ''D'', PtyData example_id ''E'']
             (state_of (on_message 0 (Json (attach_msg example_id)) example_state))) 0
     = [Output example_id ''A'', Output example_id ''B'', Output example_id ''C'',
        Replay_done example_id, Output example_id ''D'', Output example_id ''E'']"
proof -
  let ?p = "\<lparr>alive = True, buffer = [''A'', ''B'', ''C''], bufferSize = 3, dataListeners = [],
             exitListeners = [ExitHandler 0], written = [], dims = None,
             config = \<lparr>opt_cwd = ''/tmp'', opt_shell = Some ''/bin/bash'',
                        opt_args = Some [''-c'', ''sleep 3600''], opt_resumeId = None\<rparr>\<rparr>"
  have facts: "0 < opened example_state" "is_open (sockets example_state 0)"
    "stream example_state 0 = []" "manager example_state example_id = Some ?p"
    by (simp_all add: example_state_def example_history_def eval_defs)
  have msg: "get_prop (attach_msg example_id) ''type'' = Inr (Val (JStr ''attach''))"
    "prop_of (attach_msg example_id) ''sessionId'' = Val (JStr example_id)"
    by (simp_all add: attach_msg_def prop_of_def)
  let ?s1 = "state_of (on_message 0 (Json (attach_msg example_id)) example_state)"
  let ?es = "[PtyData example_id ''D'', PtyData example_id ''E'']"
  from attach_replay_then_live[OF reachable_example facts(1,2) msg facts(4)]
  have "\<forall>es. admissible_run ?s1 es \<longrightarrow> (\<forall>e \<in> set es. undisturbed 0 example_id e) \<longrightarrow>
          stream (run es ?s1) 0 =
            stream example_state 0 @ map (Output example_id) [''A'', ''B'', ''C''] @
            [Replay_done example_id] @ map (Output example_id) (produced example_id es)"
    by simp
  then have "admissible_run ?s1 ?es \<longrightarrow> (\<forall>e \<in> set ?es. undisturbed 0 example_id e) \<longrightarrow>
          stream (run ?es ?s1) 0 =
            stream example_state 0 @ map (Output example_id) [''A'', ''B'', ''C''] @
            [Replay_done example_id] @ map (Output example_id) (produced example_id ?es)"
    by (rule spec)
  then have "stream (run ?es ?s1) 0 =
            stream example_state 0 @ map (Output example_id) [''A'', ''B'', ''C''] @
            [Replay_done example_id] @ map (Output example_id) (produced example_id ?es)"
    by simp
  with facts reachable_example show ?thesis by simp
qed

theorem one_listener_per_connection_witness:
  "reachable two_sessions \<and> 0 < opened two_sessions \<and>
   attachedSessionId (conns two_sessions 0) = Some example_id \<and>
   (example_id, 0) \<in> listening two_sessions 0 \<and>
   listening (state_of (on_message 0 (Json (attach_msg other_id)) two_sessions)) 0 = {(other_id, 1)} \<and>
   stream (state_of (on_pty_data example_id ''from one''
      (state_of (on_message 0 (Json (attach_msg other_id)) two_sessions)))) 0
     = stream (state_of (on_message 0 (Json (attach_msg other_id)) two_sessions)) 0 \<and>
   stream (state_of (on_pty_data other_id ''from two''
      (state_of (on_message 0 (Json (attach_msg other_id)) two_sessions)))) 0
     = stream (state_of (on_message 0 (Json (attach_msg other_id)) two_sessions)) 0 @
       [Output other_id ''from two'']"
proof -
  have facts: "0 < opened two_sessions" "manager two_sessions other_id \<noteq> None"
    "fresh two_sessions = 1" "isAlive other_id (manager two_sessions)"
    "is_open (sockets two_sessions 0)" "attachedSessionId (conns two_sessions 0) = Some example_id"
    "example_id \<noteq> other_id"
    by (simp_all add: two_sessions_def two_sessions_history_def eval_defs)
  have here: "(example_id, 0) \<in> listening two_sessions 0"
    by (simp add: listening_iff listeners_def two_sessions_def two_sessions_history_def eval_defs)
  have msg: "get_prop (attach_msg other_id) ''type'' = Inr (Val (JStr ''attach''))"
    "prop_of (attach_msg other_id) ''sessionId'' = Val (JStr other_id)"
    by (simp_all add: attach_msg_def prop_of_def)
  from one_listener_per_connection[OF reachable_two_sessions, of 0 "attach_msg other_id" other_id]
    facts msg here reachable_two_sessions
  show ?thesis by simp
qed

theorem unknown_id_noop_witness:
  "manager two_sessions ''ghost'' = None \<and>
   attachedSessionId (conns two_sessions 0) = Some example_id \<and>
   pm_write ''ghost'' (Val (JStr ''ls'')) (manager two_sessions) = manager two_sessions \<and>
   pm_resize ''ghost'' (Val (JNum 80)) (Val (JNum 24)) (manager two_sessions) = manager two_sessions \<and>
   kill ''ghost'' two_sessions = Return two_sessions \<and>
   \<not> isAlive ''ghost'' (manager two_sessions) \<and>
   getBuffer ''ghost'' (manager two_sessions) = [] \<and>
   on_message 0 (Json (attach_msg ''ghost'')) two_sessions = Return two_sessions"
proof -
  have facts: "manager two_sessions ''ghost'' = None"
    "attachedSessionId (conns two_sessions 0) = Some example_id"
    by (simp_all add: two_sessions_def two_sessions_history_def eval_defs)
  have msg: "get_prop (attach_msg ''ghost'') ''type'' = Inr (Val (JStr ''attach''))"
    "prop_of (attach_msg ''ghost'') ''sessionId'' = Val (JStr ''ghost'')"
    by (simp_all add: attach_msg_def prop_of_def)
  from unknown_id_noop[OF facts(1), of "Val (JStr ''ls'')" "Val (JNum 80)" "Val (JNum 24)" 0
      "ExitHandler 0" "attach_msg ''ghost''" 0] facts msg
  show ?thesis by simp
qed

theorem kill_once_witness:
  "snd (pm_kill example_id (manager example_state)) @
   snd (pm_kill example_id (fst (pm_kill example_id (manager example_state)))) = [ExitHandler 0] \<and>
   snd (pm_exit example_id (manager example_state)) @
   snd (pm_kill example_id (fst (pm_exit example_id (manager example_state)))) = [ExitHandler 0] \<and>
   \<not> isAlive example_id (fst (pm_kill example_id (manager example_state))) \<and>
   kill example_id (state_of (kill example_id example_state))
     = Return (state_of (kill example_id example_state))"
proof -
  let ?p = "\<lparr>alive = True, buffer = [''A'', ''B'', ''C''], bufferSize = 3, dataListeners = [],
             exitListeners = [ExitHandler 0], written = [], dims = None,
             config = \<lparr>opt_cwd = ''/tmp'', opt_shell = Some ''/bin/bash'',
                        opt_args = Some [''-c'', ''sleep 3600''], opt_resumeId = None\<rparr>\<rparr>"
  have p: "manager example_state example_id = Some ?p"
    by (simp add: example_state_def example_history_def eval_defs)
  have a: "alive ?p" by simp
  note T = kill_once[of "manager example_state" example_id ?p example_state]
  from T p a have M:
    "snd (pm_kill example_id (manager example_state)) @
     snd (pm_kill example_id (fst (pm_kill example_id (manager example_state)))) = exitListeners ?p \<and>
     snd (pm_exit example_id (manager example_state)) @
     snd (pm_kill example_id (fst (pm_exit example_id (manager example_state)))) = exitListeners ?p \<and>
     \<not> isAlive example_id (fst (pm_kill example_id (manager example_state)))"
    by blast
  from T have S: "kill example_id (state_of (kill example_id example_state))
      = Return (state_of (kill example_id example_state))"
    by blast
  from M[unfolded pty_process.select_convs] S show ?thesis by blast
qed

theorem saveSessions_atomic_witness:
  "thrown (saveSessions \<lparr>randomUUID = ''0f8fad5b-d9cb-469f-a165-70867728950e'',
             write_result = Failed_after 3, rename_fails = False\<rparr> ''/srv'' (\<lambda>ss. ''[1,2,3]'') ()
             [''/srv/sessions.json'' \<mapsto> ''[]'']) = None \<and>
   state_of (saveSessions \<lparr>randomUUID = ''0f8fad5b-d9cb-469f-a165-70867728950e'',
             write_result = Failed_after 3, rename_fails = False\<rparr> ''/srv'' (\<lambda>ss. ''[1,2,3]'') ()
             [''/srv/sessions.json'' \<mapsto> ''[]'']) ''/srv/sessions.json'' = Some ''[]'' \<and>
   state_of (saveSessions \<lparr>randomUUID = ''0f8fad5b-d9cb-469f-a165-70867728950e'',
             write_result = Failed_after 3, rename_fails = False\<rparr> ''/srv'' (\<lambda>ss. ''[1,2,3]'') ()
             [''/srv/sessions.json'' \<mapsto> ''[]'']) ''/srv/sessions.json.tmp.0f8fad5b'' = None \<and>
   state_of (saveSessions \<lparr>randomUUID = ''0f8fad5b-d9cb-469f-a165-70867728950e'',
             write_result = Written, rename_fails = False\<rparr> ''/srv'' (\<lambda>ss. ''[1,2,3]'') ()
             [''/srv/sessions.json'' \<mapsto> ''[]'']) ''/srv/sessions.json'' = Some ''[1,2,3]''"
  using saveSessions_atomic[of "\<lparr>randomUUID = ''0f8fad5b-d9cb-469f-a165-70867728950e'',
             write_result = Failed_after 3, rename_fails = False\<rparr>" "''/srv''" "\<lambda>ss. ''[1,2,3]''" "()"
             "[''/srv/sessions.json'' \<mapsto> ''[]'']"]
    saveSessions_atomic[of "\<lparr>randomUUID = ''0f8fad5b-d9cb-469f-a165-70867728950e'',
             write_result = Written, rename_fails = False\<rparr>" "''/srv''" "\<lambda>ss. ''[1,2,3]''" "()"
             "[''/srv/sessions.json'' \<mapsto> ''[]'']"]
  by (simp add: STORE_PATH_def tmp_path_def)

theorem exit_keeps_attachment_witness:
  "reachable attached_state \<and>
   0 \<in> set (clients attached_state) \<and> is_open (sockets attached_state 0) \<and>
   attachedSessionId (conns attached_state 0) = Some example_id \<and>
   attachedSessionId (conns (state_of (on_pty_exit example_id attached_state)) 0) = Some example_id \<and>
   dataListener (conns (state_of (on_pty_exit example_id attached_state)) 0) = Some 0 \<and>
   (example_id, 0) \<in> listening (state_of (on_pty_exit example_id attached_state)) 0 \<and>
   (\<exists>ms. sent (sockets (state_of (on_pty_exit example_id attached_state)) 0)
            = sent (sockets attached_state 0) @ ms \<and> Exited example_id \<in> set ms)"
proof -
  let ?p = "\<lparr>alive = True, buffer = [''A'', ''B'', ''C''], bufferSize = 3, dataListeners = [0],
             exitListeners = [ExitHandler 0], written = [], dims = None,
             config = \<lparr>opt_cwd = ''/tmp'', opt_shell = Some ''/bin/bash'',
                        opt_args = Some [''-c'', ''sleep 3600''], opt_resumeId = None\<rparr>\<rparr>"
  have r: "reachable attached_state"
    unfolding attached_state_def example_server_def
    by (rule reachable_run[OF reachable.start])
       (simp_all add: example_history_def eval_defs uuid_here_def hex_group_def hex_digit_def)
  have facts: "manager attached_state example_id = Some ?p"
    "0 \<in> set (clients attached_state)" "is_open (sockets attached_state 0)"
    "attachedSessionId (conns attached_state 0) = Some example_id"
    "dataListener (conns attached_state 0) = Some 0"
    "session_id (heap attached_state 0) = example_id"
    by (simp_all add: attached_state_def example_history_def eval_defs)
  have here: "(example_id, 0) \<in> listening attached_state 0"
    by (simp add: listening_iff listeners_def attached_state_def example_history_def eval_defs)
  note T = exit_keeps_attachment[of example_id attached_state ?p 0 0]
  from T r here have 1: "(example_id, 0) \<in> listening (state_of (on_pty_exit example_id attached_state)) 0"
    by blast
  from T have 2: "conns (state_of (on_pty_exit example_id attached_state)) = conns attached_state"
    by blast
  have "alive ?p" "ExitHandler 0 \<in> set (exitListeners ?p)" by simp_all
  with T facts(1,2,3) have "\<exists>ms. sent (sockets (state_of (on_pty_exit example_id attached_state)) 0)
            = sent (sockets attached_state 0) @ ms \<and> Exited (session_id (heap attached_state 0)) \<in> set ms"
    by blast
  with 1 2 r facts show ?thesis by simp
qed

theorem send_failure_contained_witness:
  "reachable two_viewers \<and> send_throws (sockets two_viewers 0) \<and>
   (example_id, 0) \<in> listening two_viewers 0 \<and> (example_id, 1) \<in> listening two_viewers 1 \<and>
   thrown (on_pty_data example_id ''out'' two_viewers) = None \<and>
   (example_id, 0) \<in> listening (state_of (on_pty_data example_id ''out'' two_viewers)) 0 \<and>
   stream (state_of (on_pty_data example_id ''out'' two_viewers)) 1
     = stream two_viewers 1 @ [Output example_id ''out'']"
proof -
  have facts: "send_throws (sockets two_viewers 0)" "isAlive example_id (manager two_viewers)"
    "is_open (sockets two_viewers 1)"
    by (simp_all add: two_viewers_def two_viewers_history_def eval_defs)
  have here: "(example_id, 0) \<in> listening two_viewers 0" "(example_id, 1) \<in> listening two_viewers 1"
    by (simp_all add: listening_iff listeners_def two_viewers_def two_viewers_history_def eval_defs)
  note T = send_failure_contained[of "sockets two_viewers 0" "Output example_id ''out''"
      example_id "''out''" two_viewers 0 1]
  from T here(1) have 1: "(example_id, 0) \<in> listening (state_of (on_pty_data example_id ''out'' two_viewers)) 0"
    by blast
  from T reachable_two_viewers facts here(2)
  have 2: "stream (state_of (on_pty_data example_id ''out'' two_viewers)) 1
     = stream two_viewers 1 @ [Output example_id ''out'']"
    by blast
  from T have 3: "thrown (on_pty_data example_id ''out'' two_viewers) = None" by blast
  from 1 2 3 facts here reachable_two_viewers show ?thesis by simp
qed

theorem capture_once_witness:
  "\<not> testMode stopped \<and> \<not> isAlive example_id (manager stopped) \<and>
   session_id (heap stopped 0) = example_id \<and>
   first_token example_chunks = Some ''123E4567-e89b-42d3-a456-426614174000'' \<and>
   claudeSessionId (heap (run (map (PtyData example_id) example_chunks)
       (state_of (spawnSession 0 True stopped))) 0) = Some ''123E4567-e89b-42d3-a456-426614174000'' \<and>
   saves (run (map (PtyData example_id) example_chunks) (state_of (spawnSession 0 True stopped)))
     = saves stopped + 1 \<and>
   \<not> registered (run (map (PtyData example_id) example_chunks) (state_of (spawnSession 0 True stopped)))
       example_id (fresh stopped)"
proof -
  have facts: "\<not> testMode stopped" "session_id (heap stopped 0) = example_id"
    "\<not> isAlive example_id (manager stopped)"
    by (simp_all add: stopped_def stopped_history_def eval_defs call_exit.simps)
  have tok: "first_token example_chunks = Some ''123E4567-e89b-42d3-a456-426614174000''"
    by (simp add: example_chunks_def uuid_here_def hex_group_def hex_digit_def)
  have "\<not> isAlive (session_id (heap stopped 0)) (manager stopped)"
    using facts by simp
  from capture_once[OF facts(1) this, of example_chunks] facts tok
  show ?thesis by simp
qed

end
